theory Spec2Isabelle
  imports Complex_Main "HOL-Library.Multiset" "HOL-Library.Product_Lexorder"
begin

section \<open>The retrieval core of voicedoc-agent (src/lib/firestore.ts)\<close>

text \<open>
  The module keeps two Firestore collections, \<^verbatim>\<open>document_chunks\<close> and
  \<^verbatim>\<open>documents\<close>, and offers \<^verbatim>\<open>saveChunks\<close>, \<^verbatim>\<open>getDocumentByHash\<close>,
  \<^verbatim>\<open>saveDocumentMetadata\<close>, the private \<^verbatim>\<open>cosineSimilarity\<close> and
  \<^verbatim>\<open>searchSimilarChunks\<close>. Each is embedded below as a HOL function over an explicit
  store; a rejected storage call is a value of a sum type, and what the code prints on the
  console is returned as a list of entries.
\<close>

subsection \<open>JavaScript numbers\<close>

text \<open>
  A JavaScript \<^verbatim>\<open>number\<close> is an IEEE 754 double: a finite value, one of the two
  infinities, or NaN. A finite double is a real \<open>m * 2 ^ e\<close> with an integer
  \<open>\<bar>m\<bar> < 2 ^ 53\<close> and \<open>-1074 \<le> e \<le> 971\<close>. Every arithmetic operation takes the exact
  real result and rounds it to the nearest double, ties to the even mantissa; a result
  that rounds to \<open>2 ^ 1024\<close> or more in magnitude is an infinity, and one below half
  the least subnormal is zero. \<open>Num r\<close> with an \<open>r\<close> that is no double is not a value
  the program can hold; statements about all \<open>r\<close> cover the doubles among them.

  The sign of zero is not kept. The module cannot tell the two zeros apart: \<^verbatim>\<open>=== 0\<close>
  holds for both, a square and a sum of squares are never \<^verbatim>\<open>-0\<close>, and the one divisor
  is a product of two square roots of non-zero sums of squares.
\<close>

datatype jsnum = Num real | PInf | NInf | NaN

text \<open>The infinity (or NaN) whose sign is the sign of \<open>s\<close>.\<close>

definition inf_of_sign :: "real \<Rightarrow> jsnum" where
  "inf_of_sign s = (if 0 < s then PInf else if s < 0 then NInf else NaN)"

fun sign_of :: "jsnum \<Rightarrow> real" where
  "sign_of (Num x) = sgn x"
| "sign_of PInf = 1"
| "sign_of NInf = - 1"
| "sign_of NaN = 0"

text \<open>Rounding a non-negative real to an integer, a tie going to the even neighbour.\<close>

definition round_to_even :: "real \<Rightarrow> int" where
  "round_to_even q =
     (let f = \<lfloor>q\<rfloor>; d = q - of_int f
      in if d < 1 / 2 then f else if 1 / 2 < d then f + 1 else if even f then f else f + 1)"

text \<open>
  The exponent of the unit in the last place of the doubles around \<open>x\<close>: 52 below the
  binary exponent of \<open>x\<close>, and never below that of the subnormals.
\<close>

definition ulp_exponent :: "real \<Rightarrow> int" where
  "ulp_exponent x = max (\<lfloor>log 2 \<bar>x\<bar>\<rfloor> - 52) (- 1074)"

definition overflow_bound :: real where
  "overflow_bound = 2 ^ 1024"

text \<open>The double nearest to the real \<open>x\<close>, or the infinity on overflow.\<close>

definition fl :: "real \<Rightarrow> jsnum" where
  "fl x =
     (if x = 0 then Num 0
      else let e = ulp_exponent x;
               y = of_int (round_to_even (\<bar>x\<bar> / 2 powr of_int e)) * 2 powr of_int e
           in if overflow_bound \<le> y then inf_of_sign x else Num (sgn x * y))"

fun js_add :: "jsnum \<Rightarrow> jsnum \<Rightarrow> jsnum" where
  "js_add (Num x) (Num y) = fl (x + y)"
| "js_add NaN b = NaN"
| "js_add a NaN = NaN"
| "js_add PInf NInf = NaN"
| "js_add NInf PInf = NaN"
| "js_add PInf b = PInf"
| "js_add a PInf = PInf"
| "js_add NInf b = NInf"
| "js_add a NInf = NInf"

fun js_neg :: "jsnum \<Rightarrow> jsnum" where
  "js_neg (Num x) = Num (- x)"
| "js_neg PInf = NInf"
| "js_neg NInf = PInf"
| "js_neg NaN = NaN"

definition js_sub :: "jsnum \<Rightarrow> jsnum \<Rightarrow> jsnum" where
  "js_sub a b = js_add a (js_neg b)"

fun js_mul :: "jsnum \<Rightarrow> jsnum \<Rightarrow> jsnum" where
  "js_mul (Num x) (Num y) = fl (x * y)"
| "js_mul NaN b = NaN"
| "js_mul a NaN = NaN"
| "js_mul a b = inf_of_sign (sign_of a * sign_of b)"

text \<open>
  Division. A finite zero divisor is read as \<^verbatim>\<open>+0\<close>, so \<^verbatim>\<open>x / 0\<close> is the infinity
  of the sign of \<open>x\<close> and \<^verbatim>\<open>0 / 0\<close> is NaN.
\<close>

fun js_div :: "jsnum \<Rightarrow> jsnum \<Rightarrow> jsnum" where
  "js_div (Num x) (Num y) = (if y = 0 then inf_of_sign x else fl (x / y))"
| "js_div NaN b = NaN"
| "js_div a NaN = NaN"
| "js_div (Num x) b = Num 0"
| "js_div a (Num y) = inf_of_sign (sign_of a * (if 0 \<le> y then 1 else - 1))"
| "js_div a b = NaN"

text \<open>\<^verbatim>\<open>Math.sqrt\<close>: the correctly rounded square root.\<close>

fun js_sqrt :: "jsnum \<Rightarrow> jsnum" where
  "js_sqrt (Num x) = (if x < 0 then NaN else fl (sqrt x))"
| "js_sqrt PInf = PInf"
| "js_sqrt NInf = NaN"
| "js_sqrt NaN = NaN"

text \<open>
  \<^verbatim>\<open>a >= b\<close> on numbers: false as soon as one side is NaN.
\<close>

fun js_ge :: "jsnum \<Rightarrow> jsnum \<Rightarrow> bool" where
  "js_ge (Num x) (Num y) = (y \<le> x)"
| "js_ge NaN b = False"
| "js_ge a NaN = False"
| "js_ge PInf b = True"
| "js_ge a NInf = True"
| "js_ge a b = False"

text \<open>
  Reading \<^verbatim>\<open>vec[i]\<close> as an operand of \<^verbatim>\<open>*\<close>: past the end of the array the read
  gives \<^verbatim>\<open>undefined\<close>, which the multiplication converts to NaN.
\<close>

definition at_index :: "jsnum list \<Rightarrow> nat \<Rightarrow> jsnum" where
  "at_index vec i = (if i < length vec then vec ! i else NaN)"

subsection \<open>cosineSimilarity\<close>

text \<open>
  The \<^verbatim>\<open>for\<close> loop of \<^verbatim>\<open>cosineSimilarity\<close>, from index \<open>i\<close> on, with the three
  accumulators \<^verbatim>\<open>dotProduct\<close>, \<^verbatim>\<open>normA\<close>, \<^verbatim>\<open>normB\<close>. The bound is the length of
  \<^verbatim>\<open>vecA\<close> alone.
\<close>

function cosine_loop ::
  "jsnum list \<Rightarrow> jsnum list \<Rightarrow> nat \<Rightarrow> jsnum \<times> jsnum \<times> jsnum \<Rightarrow> jsnum \<times> jsnum \<times> jsnum" where
  "cosine_loop vecA vecB i (dotProduct, normA, normB) =
     (if i < length vecA
      then cosine_loop vecA vecB (i + 1)
             (js_add dotProduct (js_mul (at_index vecA i) (at_index vecB i)),
              js_add normA (js_mul (at_index vecA i) (at_index vecA i)),
              js_add normB (js_mul (at_index vecB i) (at_index vecB i)))
      else (dotProduct, normA, normB))"
  by pat_completeness auto
termination
  by (relation "measure (\<lambda>(vecA, vecB, i, acc). length vecA - i)") auto

declare cosine_loop.simps [simp del]

definition cosineSimilarity :: "jsnum list \<Rightarrow> jsnum list \<Rightarrow> jsnum" where
  "cosineSimilarity vecA vecB =
     (case cosine_loop vecA vecB 0 (Num 0, Num 0, Num 0) of
        (dotProduct, normA, normB) \<Rightarrow>
          if normA = Num 0 \<or> normB = Num 0 then Num 0
          else js_div dotProduct (js_mul (js_sqrt normA) (js_sqrt normB)))"

subsection \<open>Data model\<close>

text \<open>
  The interfaces \<^verbatim>\<open>Chunk\<close> and \<^verbatim>\<open>DocumentMetadata\<close>. An optional field is an
  \<open>option\<close>. Document ids are opaque to the module and are taken as natural numbers; a
  \<^verbatim>\<open>Date\<close> is a natural number of milliseconds.
\<close>

record Metadata =
  filename :: string
  persona :: string
  pageNumber :: "int option"

record Chunk =
  chunk_id :: "nat option"
  chunk_text :: string
  embedding :: "jsnum list"
  metadata :: Metadata

record DocumentMetadata =
  hash :: string
  doc_filename :: string
  doc_persona :: string
  summary :: "string option"
  created_at :: "nat option"

text \<open>
  A row of the collection \<^verbatim>\<open>document_chunks\<close>, as \<^verbatim>\<open>saveChunks\<close> writes it: the
  id of the document reference and the four fields of the data.
\<close>

record ChunkDoc =
  doc_id :: nat
  doc_text :: string
  doc_embedding :: "jsnum list"
  doc_metadata :: Metadata
  doc_created_at :: nat

text \<open>
  The database \<^verbatim>\<open>voicedoc-fs\<close>. Each collection is the list of its rows in the order a
  query returns them. \<open>next_id\<close> supplies the ids of new document references, and
  \<open>reachable\<close> says whether a call to the service is answered: when it is not, the call
  is rejected with \<open>StorageUnavailable\<close>. The client that \<^verbatim>\<open>getFirestore\<close> creates
  on first use is not a part of the state: every function obtains it before anything else,
  and it matters only through the calls made on it. A new row is put at the end of its
  collection; where Firestore places it in the order of a query is not fixed by the code.
\<close>

record Store =
  document_chunks :: "ChunkDoc list"
  documents :: "DocumentMetadata list"
  next_id :: nat
  reachable :: bool

datatype error = StorageUnavailable

subsection \<open>saveChunks, getDocumentByHash, saveDocumentMetadata\<close>

text \<open>
  \<^verbatim>\<open>saveChunks\<close>: one \<^verbatim>\<open>batch.set\<close> per chunk on a new document reference, then one
  \<^verbatim>\<open>commit\<close>, which writes all rows or none. The \<^verbatim>\<open>id\<close> of the chunk passed in is
  not written. The rows of one call carry one date, \<open>now\<close>.
\<close>

definition new_row :: "nat \<Rightarrow> nat \<Rightarrow> Chunk \<Rightarrow> ChunkDoc" where
  "new_row now ref chunk =
     \<lparr>doc_id = ref, doc_text = chunk_text chunk, doc_embedding = embedding chunk,
      doc_metadata = metadata chunk, doc_created_at = now\<rparr>"

definition saveChunks :: "Store \<Rightarrow> nat \<Rightarrow> Chunk list \<Rightarrow> error + Store" where
  "saveChunks db now chunks =
     (if reachable db
      then Inr (db\<lparr>document_chunks :=
                     document_chunks db @
                     map2 (new_row now) [next_id db ..< next_id db + length chunks] chunks,
                   next_id := next_id db + length chunks\<rparr>)
      else Inl StorageUnavailable)"

text \<open>
  \<^verbatim>\<open>getDocumentByHash\<close>: the query \<^verbatim>\<open>where('hash', '==', hash).limit(1)\<close>; \<^verbatim>\<open>null\<close>
  when the snapshot is empty, else the data of its first row.
\<close>

definition getDocumentByHash :: "Store \<Rightarrow> string \<Rightarrow> error + DocumentMetadata option" where
  "getDocumentByHash db h =
     (if reachable db
      then (case filter (\<lambda>d. hash d = h) (documents db) of
              [] \<Rightarrow> Inr None
            | d # ds \<Rightarrow> Inr (Some d))
      else Inl StorageUnavailable)"

text \<open>
  \<^verbatim>\<open>saveDocumentMetadata\<close>: adds the record with \<^verbatim>\<open>created_at\<close> set to the current
  date. It looks at no existing row.
\<close>

definition saveDocumentMetadata :: "Store \<Rightarrow> nat \<Rightarrow> DocumentMetadata \<Rightarrow> error + Store" where
  "saveDocumentMetadata db now doc =
     (if reachable db
      then Inr (db\<lparr>documents := documents db @ [doc\<lparr>created_at := Some now\<rparr>]\<rparr>)
      else Inl StorageUnavailable)"

subsection \<open>Array.prototype.sort and Array.prototype.slice\<close>

text \<open>
  \<^verbatim>\<open>sort(comparefn)\<close> is the engine's, not the module's. ECMA-262 reads the
  comparator's result \<open>v\<close> as "first argument after the second" when \<open>v > 0\<close>, "before"
  when \<open>v < 0\<close> and "equal" otherwise, NaN counting as zero. It calls the comparator
  consistent on a set of elements when "equal" is reflexive, symmetric and transitive on
  it and "before" and "after" are transitive.
\<close>

fun positive :: "jsnum \<Rightarrow> bool" where
  "positive (Num r) = (0 < r)"
| "positive PInf = True"
| "positive NInf = False"
| "positive NaN = False"

fun negative :: "jsnum \<Rightarrow> bool" where
  "negative (Num r) = (r < 0)"
| "negative PInf = False"
| "negative NInf = True"
| "negative NaN = False"

definition cf_eq :: "('a \<Rightarrow> 'a \<Rightarrow> jsnum) \<Rightarrow> 'a \<Rightarrow> 'a \<Rightarrow> bool" where
  "cf_eq comparefn a b = (\<not> positive (comparefn a b) \<and> \<not> negative (comparefn a b))"

definition consistent_comparator :: "('a \<Rightarrow> 'a \<Rightarrow> jsnum) \<Rightarrow> 'a set \<Rightarrow> bool" where
  "consistent_comparator comparefn S =
     ((\<forall>a\<in>S. cf_eq comparefn a a) \<and>
      (\<forall>a\<in>S. \<forall>b\<in>S. cf_eq comparefn a b \<longrightarrow> cf_eq comparefn b a) \<and>
      (\<forall>a\<in>S. \<forall>b\<in>S. \<forall>c\<in>S.
         cf_eq comparefn a b \<and> cf_eq comparefn b c \<longrightarrow> cf_eq comparefn a c) \<and>
      (\<forall>a\<in>S. \<forall>b\<in>S. \<forall>c\<in>S.
         negative (comparefn a b) \<and> negative (comparefn b c) \<longrightarrow> negative (comparefn a c)) \<and>
      (\<forall>a\<in>S. \<forall>b\<in>S. \<forall>c\<in>S.
         positive (comparefn a b) \<and> positive (comparefn b c) \<longrightarrow> positive (comparefn a c)))"

text \<open>
  What is assumed of the engine's sort function. It only moves the elements, so the result
  is always a rearrangement of the array. When the comparator is consistent on the
  elements, ECMA-262 fixes the order: an element that compares "before" another stands
  before it in the result, and elements that compare "equal" keep their order (the sort
  is stable since ECMAScript 2019). When the comparator is not consistent, which is what
  a NaN score brings about, the standard leaves the order to the engine, and nothing is
  assumed of it.
\<close>

definition ecma_sort :: "(('a \<Rightarrow> 'a \<Rightarrow> jsnum) \<Rightarrow> 'a list \<Rightarrow> 'a list) \<Rightarrow> bool" where
  "ecma_sort sort_impl =
     (\<forall>comparefn xs.
        mset (sort_impl comparefn xs) = mset xs \<and>
        (consistent_comparator comparefn (set xs) \<longrightarrow>
           sorted_wrt (\<lambda>a b. \<not> negative (comparefn b a)) (sort_impl comparefn xs) \<and>
           (\<forall>k\<in>set xs. filter (cf_eq comparefn k) (sort_impl comparefn xs) =
                         filter (cf_eq comparefn k) xs)))"

text \<open>
  One sort function of this kind: insertion from the right, an element going behind those
  it compares "after". It serves to run the examples. With a comparator that is not
  consistent its order is one of many and need not be that of a given engine.
\<close>

fun insert_by :: "('a \<Rightarrow> 'a \<Rightarrow> jsnum) \<Rightarrow> 'a \<Rightarrow> 'a list \<Rightarrow> 'a list" where
  "insert_by comparefn x [] = [x]"
| "insert_by comparefn x (y # ys) =
     (if positive (comparefn x y) then y # insert_by comparefn x ys else x # y # ys)"

definition js_sort :: "('a \<Rightarrow> 'a \<Rightarrow> jsnum) \<Rightarrow> 'a list \<Rightarrow> 'a list" where
  "js_sort comparefn xs = foldr (insert_by comparefn) xs []"

text \<open>
  \<^verbatim>\<open>xs.slice(0, end)\<close> for an integral \<open>end\<close>: a negative \<open>end\<close> counts from the end
  of the array.
\<close>

definition js_slice0 :: "int \<Rightarrow> 'a list \<Rightarrow> 'a list" where
  "js_slice0 end_arg xs =
     (let len = int (length xs);
          final = (if end_arg < 0 then max (len + end_arg) 0 else min end_arg len)
      in take (nat final) xs)"

subsection \<open>searchSimilarChunks\<close>

text \<open>What the function prints, by console method.\<close>

datatype message =
    AttemptingVectorSearch
  | FallingBackToClientSide
  | FilteringByFilename string
  | NoFilenameSearchingGlobal
  | ChunksRetrieved nat
  | FirstChunkMetadata Metadata
  | ScoringChunks nat
  | VectorSearchFailed error

datatype console = Console_log message | Console_warn message | Console_error message

text \<open>
  The test \<^verbatim>\<open>if (filename)\<close>: an absent argument and the empty string are both falsy.
\<close>

fun truthy :: "string option \<Rightarrow> bool" where
  "truthy None = False"
| "truthy (Some s) = (s \<noteq> [])"

text \<open>
  Lines 97 to 108: the collection reference, narrowed by
  \<^verbatim>\<open>where('metadata.filename', '==', filename)\<close> when the filename is truthy; then
  \<^verbatim>\<open>get()\<close>, which may be rejected; then each row mapped to
  \<^verbatim>\<open>{ id: doc.id, ...doc.data() }\<close>.
\<close>

definition queryRef :: "Store \<Rightarrow> string option \<Rightarrow> ChunkDoc list" where
  "queryRef db filename_arg =
     (if truthy filename_arg
      then filter (\<lambda>d. Some (filename (doc_metadata d)) = filename_arg) (document_chunks db)
      else document_chunks db)"

definition to_chunk :: "ChunkDoc \<Rightarrow> Chunk" where
  "to_chunk d =
     \<lparr>chunk_id = Some (doc_id d), chunk_text = doc_text d, embedding = doc_embedding d,
      metadata = doc_metadata d\<rparr>"

definition fetch_allChunks :: "Store \<Rightarrow> string option \<Rightarrow> error + Chunk list" where
  "fetch_allChunks db filename_arg =
     (if reachable db then Inr (map to_chunk (queryRef db filename_arg))
      else Inl StorageUnavailable)"

text \<open>
  Lines 119 to 126: score every chunk, sort by \<^verbatim>\<open>b.score - a.score\<close>, slice. The sort
  is the engine's and is a parameter, \<open>sort_impl\<close>.
\<close>

definition score_compare :: "Chunk \<times> jsnum \<Rightarrow> Chunk \<times> jsnum \<Rightarrow> jsnum" where
  "score_compare a b = js_sub (snd b) (snd a)"

definition rank_chunks ::
  "((Chunk \<times> jsnum \<Rightarrow> Chunk \<times> jsnum \<Rightarrow> jsnum) \<Rightarrow> (Chunk \<times> jsnum) list \<Rightarrow> (Chunk \<times> jsnum) list) \<Rightarrow>
   jsnum list \<Rightarrow> int \<Rightarrow> Chunk list \<Rightarrow> Chunk list" where
  "rank_chunks sort_impl queryEmbedding limit allChunks =
     (let scoredChunks =
            map (\<lambda>chunk. (chunk, cosineSimilarity queryEmbedding (embedding chunk))) allChunks
      in map fst (js_slice0 limit (sort_impl score_compare scoredChunks)))"

text \<open>
  The whole function. \<open>limit_arg = None\<close> is a call without the second argument, for
  which the default 3 applies; a limit that is given is an integer of either sign.
  Everything runs inside the \<^verbatim>\<open>try\<close>, so a rejected
  \<^verbatim>\<open>get()\<close> ends in the \<^verbatim>\<open>catch\<close> branch: one \<^verbatim>\<open>console.error\<close> and the empty
  array.
\<close>

definition searchSimilarChunks ::
  "((Chunk \<times> jsnum \<Rightarrow> Chunk \<times> jsnum \<Rightarrow> jsnum) \<Rightarrow> (Chunk \<times> jsnum) list \<Rightarrow> (Chunk \<times> jsnum) list) \<Rightarrow>
   Store \<Rightarrow> jsnum list \<Rightarrow> int option \<Rightarrow> string option \<Rightarrow> console list \<times> Chunk list" where
  "searchSimilarChunks sort_impl db queryEmbedding limit_arg filename_arg =
     (let limit = (case limit_arg of None \<Rightarrow> 3 | Some l \<Rightarrow> l);
          out1 = [Console_log AttemptingVectorSearch, Console_log FallingBackToClientSide,
                  (case filename_arg of
                     Some f \<Rightarrow> if truthy filename_arg then Console_log (FilteringByFilename f)
                               else Console_warn NoFilenameSearchingGlobal
                   | None \<Rightarrow> Console_warn NoFilenameSearchingGlobal)]
      in case fetch_allChunks db filename_arg of
           Inl e \<Rightarrow> (out1 @ [Console_error (VectorSearchFailed e)], [])
         | Inr allChunks \<Rightarrow>
             (out1 @ [Console_log (ChunksRetrieved (length allChunks))] @
                (case allChunks of
                   [] \<Rightarrow> []
                 | c # cs \<Rightarrow> [Console_log (FirstChunkMetadata (metadata c))]) @
                [Console_log (ScoringChunks (length allChunks))],
              rank_chunks sort_impl queryEmbedding limit allChunks))"

subsection \<open>Ingestion\<close>

text \<open>
  Modelled from the spec: the ingestion sequence that calls \<^verbatim>\<open>getDocumentByHash\<close>,
  \<^verbatim>\<open>saveDocumentMetadata\<close> and \<^verbatim>\<open>saveChunks\<close> is not in \<^verbatim>\<open>firestore.ts\<close>. The
  spec gives it as "check hash, then insert record, then batch-insert chunks", where an
  existing record for the hash "short-circuits re-ingestion" as a success path, and a
  storage fault of any of the three calls propagates to the caller.
\<close>

datatype ingest_outcome = AlreadyIngested DocumentMetadata | Ingested

definition ingest ::
  "Store \<Rightarrow> nat \<Rightarrow> DocumentMetadata \<Rightarrow> Chunk list \<Rightarrow> Store \<times> (error + ingest_outcome)" where
  "ingest db now doc chunks =
     (case getDocumentByHash db (hash doc) of
        Inl e \<Rightarrow> (db, Inl e)
      | Inr (Some existing) \<Rightarrow> (db, Inr (AlreadyIngested existing))
      | Inr None \<Rightarrow>
          (case saveDocumentMetadata db now doc of
             Inl e \<Rightarrow> (db, Inl e)
           | Inr db1 \<Rightarrow>
               (case saveChunks db1 now chunks of
                  Inl e \<Rightarrow> (db1, Inl e)
                | Inr db2 \<Rightarrow> (db2, Inr Ingested))))"

subsection \<open>Notions used in the statements\<close>

text \<open>
  A vector of Euclidean norm exactly zero: every entry is the number zero (the empty
  vector included).
\<close>

definition zero_vector :: "jsnum list \<Rightarrow> bool" where
  "zero_vector v = list_all (\<lambda>x. x = Num 0) v"

text \<open>The score \<^verbatim>\<open>searchSimilarChunks\<close> gives a chunk for a query embedding.\<close>

definition score :: "jsnum list \<Rightarrow> Chunk \<Rightarrow> jsnum" where
  "score queryEmbedding chunk = cosineSimilarity queryEmbedding (embedding chunk)"

text \<open>
  The sum of squares that the loop of \<^verbatim>\<open>cosineSimilarity\<close> leaves in \<^verbatim>\<open>normA\<close>. It
  depends on \<^verbatim>\<open>vecA\<close> alone.
\<close>

definition normA_of :: "jsnum list \<Rightarrow> jsnum" where
  "normA_of vecA = fst (snd (cosine_loop vecA [] 0 (Num 0, Num 0, Num 0)))"

text \<open>The array \<^verbatim>\<open>scoredChunks\<close> before the sort.\<close>

definition scoredChunks :: "jsnum list \<Rightarrow> Chunk list \<Rightarrow> (Chunk \<times> jsnum) list" where
  "scoredChunks queryEmbedding allChunks =
     map (\<lambda>chunk. (chunk, cosineSimilarity queryEmbedding (embedding chunk))) allChunks"

text \<open>
  The values a sum of squares can take: a non-negative number, \<^verbatim>\<open>Infinity\<close> or NaN.
\<close>

fun sq_like :: "jsnum \<Rightarrow> bool" where
  "sq_like (Num r) = (0 \<le> r)"
| "sq_like PInf = True"
| "sq_like NInf = False"
| "sq_like NaN = True"

text \<open>
  A finite value that is a multiple of the least subnormal \<open>2 ^ -1074\<close>, as every
  double is.
\<close>

definition on_grid :: "jsnum \<Rightarrow> bool" where
  "on_grid v = (case v of Num r \<Rightarrow> r / 2 powr of_int (- 1074) \<in> \<int> | _ \<Rightarrow> True)"

text \<open>
  A key in a linear order that falls as the score rises: sorting by descending score is
  sorting by ascending key. NaN has a key only to make the function total.
\<close>

fun descending_key :: "jsnum \<Rightarrow> int \<times> real" where
  "descending_key PInf = (0, 0)"
| "descending_key (Num r) = (1, - r)"
| "descending_key NInf = (2, 0)"
| "descending_key NaN = (3, 0)"


fun moderate_number :: "jsnum \<Rightarrow> bool" where
  "moderate_number (Num r) = (r = 0 \<or> (1 / 2 ^ 500 \<le> \<bar>r\<bar> \<and> \<bar>r\<bar> \<le> 2 ^ 500))"
| "moderate_number v = False"

subsection \<open>A small corpus\<close>

text \<open>
  Three rows in the shape of the spec's scenario: \<open>rowA\<close> and \<open>rowC\<close> belong to
  \<^verbatim>\<open>x.pdf\<close>, \<open>rowB\<close> to \<^verbatim>\<open>y.pdf\<close>. Against the query \<open>[1, 0]\<close> they score 0, 1
  and -1. \<open>rowShort\<close> has an embedding of one dimension and \<open>rowLong\<close> one of three.
\<close>

definition row :: "nat \<Rightarrow> string \<Rightarrow> jsnum list \<Rightarrow> ChunkDoc" where
  "row n f emb =
     \<lparr>doc_id = n, doc_text = ''text'', doc_embedding = emb,
      doc_metadata = \<lparr>filename = f, persona = ''technical'', pageNumber = None\<rparr>,
      doc_created_at = 0\<rparr>"

definition rowA :: ChunkDoc where
  "rowA = row 0 ''x.pdf'' [Num 0, Num 1]"

definition rowB :: ChunkDoc where
  "rowB = row 1 ''y.pdf'' [Num 1, Num 0]"

definition rowC :: ChunkDoc where
  "rowC = row 2 ''x.pdf'' [Num (- 1), Num 0]"

definition rowShort :: ChunkDoc where
  "rowShort = row 3 ''x.pdf'' [Num 1]"

definition rowLong :: ChunkDoc where
  "rowLong = row 4 ''x.pdf'' [Num 1, Num 0, Num 5]"

definition query10 :: "jsnum list" where
  "query10 = [Num 1, Num 0]"

definition store_of :: "ChunkDoc list \<Rightarrow> Store" where
  "store_of rows =
     \<lparr>document_chunks = rows, documents = [], next_id = 5, reachable = True\<rparr>"

definition doc_x :: DocumentMetadata where
  "doc_x = \<lparr>hash = ''h1'', doc_filename = ''x.pdf'', doc_persona = ''technical'',
            summary = None, created_at = None\<rparr>"

section \<open>Properties of the rounding\<close>

lemma round_to_even_int: "round_to_even (of_int n) = n"
  by (simp add: round_to_even_def)

lemma round_to_even_ge_floor: "\<lfloor>q\<rfloor> \<le> round_to_even q"
  by (simp add: round_to_even_def Let_def)

lemma round_to_even_near: "\<bar>of_int (round_to_even q) - q\<bar> \<le> 1 / 2"
  unfolding round_to_even_def Let_def by (auto simp: abs_if) linarith+

lemma round_to_even_nonneg: "0 \<le> q \<Longrightarrow> 0 \<le> round_to_even q"
  using round_to_even_ge_floor[of q] by (smt (verit) zero_le_floor)

lemma round_to_even_half: "0 \<le> q \<Longrightarrow> q \<le> 1 / 2 \<Longrightarrow> round_to_even q = 0"
proof -
  assume q: "0 \<le> q" "q \<le> 1 / 2"
  then have "\<lfloor>q\<rfloor> = 0" by (simp add: floor_eq_iff)
  then show ?thesis using q by (simp add: round_to_even_def)
qed

lemma floor_log_bounds:
  assumes "0 < x"
  shows "2 powr of_int \<lfloor>log 2 x\<rfloor> \<le> x" "x < 2 powr (of_int \<lfloor>log 2 x\<rfloor> + 1)"
  using floor_log_eq_powr_iff[of x 2 "\<lfloor>log 2 x\<rfloor>"] assms by simp_all

lemma ulp_exponent_ge: "- 1074 \<le> ulp_exponent x"
  by (simp add: ulp_exponent_def)


lemma two_powr_int_pos: "0 < (2::real) powr of_int e"
  by simp

lemma fl_exact:
  assumes x: "x = of_int m * 2 powr of_int k" and m: "\<bar>m\<bar> < 2 ^ 53" and k: "- 1074 \<le> k"
    and fin: "\<bar>x\<bar> < 2 ^ 1024"
  shows "fl x = Num x"
proof (cases "x = 0")
  case True
  then show ?thesis by (simp add: fl_def)
next
  case False
  let ?e = "ulp_exponent x"
  have ax: "\<bar>x\<bar> = of_int \<bar>m\<bar> * 2 powr of_int k"
    using x by (simp add: abs_mult)
  have pos: "0 < \<bar>x\<bar>" using False by simp
  have "\<bar>x\<bar> < 2 ^ 53 * 2 powr of_int k"
  proof -
    have "(of_int \<bar>m\<bar> :: real) < 2 ^ 53" using m by (metis of_int_less_numeral_power_cancel_iff)
    then show ?thesis unfolding ax by (simp)
  qed
  also have "\<dots> = 2 powr (of_int (k + 52) + 1)"
    by (simp add: powr_add powr_numeral)
  finally have "\<bar>x\<bar> < 2 powr (of_int (k + 52) + 1)" .
  then have "\<lfloor>log 2 \<bar>x\<bar>\<rfloor> < k + 52 + 1"
    using floor_log_bounds(1)[OF pos]
    by (smt (verit) of_int_less_iff powr_less_cancel_iff of_int_add of_int_1)
  then have ek: "?e \<le> k" using k by (simp add: ulp_exponent_def)
  then obtain j :: nat where j: "k = ?e + int j"
    by (metis nonneg_int_cases diff_ge_0_iff_ge add_diff_cancel_left' add.commute diff_add_cancel)
  have "\<bar>x\<bar> / 2 powr of_int ?e = of_int \<bar>m\<bar> * 2 powr (of_int k - of_int ?e)"
    unfolding ax by (simp add: powr_diff)
  also have "\<dots> = of_int (\<bar>m\<bar> * 2 ^ j)"
    using j by (simp add: powr_realpow)
  finally have q: "\<bar>x\<bar> / 2 powr of_int ?e = of_int (\<bar>m\<bar> * 2 ^ j)" .
  have y: "of_int (round_to_even (\<bar>x\<bar> / 2 powr of_int ?e)) * 2 powr of_int ?e = \<bar>x\<bar>"
    unfolding q round_to_even_int using q by (metis nonzero_eq_divide_eq powr_eq_0_iff zero_neq_numeral)
  have "\<not> overflow_bound \<le> \<bar>x\<bar>"
    using fin by (simp add: overflow_bound_def)
  then have "fl x = Num (sgn x * \<bar>x\<bar>)"
    using False by (simp only: fl_def Let_def y if_False)
  then show ?thesis
    by (simp add: sgn_if abs_if)
qed

lemma fl_int: "x \<in> \<int> \<Longrightarrow> \<bar>x\<bar> < 2 ^ 53 \<Longrightarrow> fl x = Num x"
proof -
  assume "x \<in> \<int>" and b: "\<bar>x\<bar> < 2 ^ 53"
  then obtain m where m: "x = of_int m" by (auto elim: Ints_cases)
  have "\<bar>m\<bar> < 2 ^ 53" using b m by (metis of_int_abs of_int_less_numeral_power_cancel_iff)
  moreover have "\<bar>x\<bar> < 2 ^ 1024" using b by (smt (verit) power_strict_increasing_iff numeral_less_iff semiring_norm)
  ultimately show ?thesis using fl_exact[of x m 0] m by simp
qed


lemma overflow_bound_pos: "0 < overflow_bound"
  by (simp add: overflow_bound_def)

lemma pow_1024: "overflow_bound = 2 powr of_int 1024"
  by (simp add: powr_numeral overflow_bound_def)

lemma pow_m1075: "(1::real) / 2 ^ 1075 = 2 powr of_int (- 1075)"
  by (simp add: powr_minus powr_numeral inverse_eq_divide)

lemma two_powr_le: "(2::real) powr of_int a \<le> 2 powr of_int b \<longleftrightarrow> a \<le> b"
  by simp

lemma two_powr_less: "(2::real) powr of_int a < 2 powr of_int b \<longleftrightarrow> a < b"
  by simp

lemma two_powr_diff: "(2::real) powr of_int a / 2 powr of_int b = 2 powr of_int (a - b)"
  by (simp add: powr_diff)

lemma two_powr_sum: "(2::real) powr of_int a * 2 powr of_int b = 2 powr of_int (a + b)"
  by (simp add: powr_add)

lemma floor_log_int_bounds:
  assumes "0 < x"
  shows "2 powr of_int \<lfloor>log 2 x\<rfloor> \<le> x" "x < 2 powr of_int (\<lfloor>log 2 x\<rfloor> + 1)"
  using floor_log_bounds[OF assms] by simp_all

lemma fl_overflow:
  assumes "2 ^ 1024 \<le> \<bar>x\<bar>"
  shows "fl x = inf_of_sign x"
proof -
  let ?L = "\<lfloor>log 2 \<bar>x\<bar>\<rfloor>"
  let ?e = "ulp_exponent x"
  let ?q = "\<bar>x\<bar> / 2 powr of_int ?e"
  have big: "2 powr of_int 1024 \<le> \<bar>x\<bar>"
    using assms by (simp add: powr_numeral)
  have pos: "0 < \<bar>x\<bar>"
    using big two_powr_int_pos[of 1024] by linarith
  have "(2::real) powr of_int 1024 < 2 powr of_int (?L + 1)"
    using floor_log_int_bounds(2)[OF pos] big by linarith
  then have L: "1024 \<le> ?L"
    by (simp only: two_powr_less)
  then have e: "?e = ?L - 52"
    unfolding ulp_exponent_def by linarith
  have "(2::real) powr of_int ?L / 2 powr of_int ?e \<le> ?q"
    using floor_log_int_bounds(1)[OF pos] by (simp only: divide_right_mono two_powr_int_pos less_imp_le)
  then have "(2::real) powr of_int 52 \<le> ?q"
    by (simp only: two_powr_diff e) simp
  then have "of_int (2 ^ 52) \<le> ?q"
    by (simp add: powr_numeral)
  then have "(2::int) ^ 52 \<le> \<lfloor>?q\<rfloor>"
    by (simp only: le_floor_iff)
  then have "(2::int) ^ 52 \<le> round_to_even ?q"
    using round_to_even_ge_floor order_trans by blast
  then have "(of_int (2 ^ 52) :: real) \<le> of_int (round_to_even ?q)"
    by (simp only: of_int_le_iff)
  then have "(2::real) powr of_int 52 \<le> of_int (round_to_even ?q)"
    by (simp add: powr_numeral)
  then have "(2::real) powr of_int 52 * 2 powr of_int ?e
      \<le> of_int (round_to_even ?q) * 2 powr of_int ?e"
    by (simp only: mult_right_mono two_powr_int_pos less_imp_le)
  then have "(2::real) powr of_int ?L \<le> of_int (round_to_even ?q) * 2 powr of_int ?e"
    by (simp only: two_powr_sum e) simp
  moreover have "(2::real) powr of_int 1024 \<le> 2 powr of_int ?L"
    using L by (simp only: two_powr_le)
  ultimately have "overflow_bound \<le> of_int (round_to_even ?q) * 2 powr of_int ?e"
    by (simp only: pow_1024)
  moreover have "x \<noteq> 0"
    using pos by simp
  ultimately show ?thesis
    by (simp only: fl_def Let_def if_True if_False)
qed

lemma fl_underflow:
  assumes "\<bar>x\<bar> \<le> 1 / 2 ^ 1075"
  shows "fl x = Num 0"
proof (cases "x = 0")
  case True
  then show ?thesis by (simp add: fl_def)
next
  case False
  let ?L = "\<lfloor>log 2 \<bar>x\<bar>\<rfloor>"
  have pos: "0 < \<bar>x\<bar>" using False by simp
  have small: "\<bar>x\<bar> \<le> 2 powr of_int (- 1075)"
    using assms by (simp only: pow_m1075)
  then have "(2::real) powr of_int ?L \<le> 2 powr of_int (- 1075)"
    using floor_log_int_bounds(1)[OF pos] by linarith
  then have "?L \<le> - 1075"
    by (simp only: two_powr_le)
  then have e: "ulp_exponent x = - 1074"
    unfolding ulp_exponent_def by linarith
  have "\<bar>x\<bar> / 2 powr of_int (- 1074) \<le> 2 powr of_int (- 1075) / 2 powr of_int (- 1074)"
    using small by (simp only: divide_right_mono two_powr_int_pos less_imp_le)
  also have "\<dots> = 2 powr of_int (- 1)"
    by (simp only: two_powr_diff) simp
  also have "\<dots> = 1 / 2"
    by (simp add: powr_minus inverse_eq_divide)
  finally have "\<bar>x\<bar> / 2 powr of_int (- 1074) \<le> 1 / 2" .
  moreover have "0 \<le> \<bar>x\<bar> / 2 powr of_int (- 1074)"
    by simp
  ultimately have "round_to_even (\<bar>x\<bar> / 2 powr of_int (- 1074)) = 0"
    using round_to_even_half by blast
  then show ?thesis
    using False overflow_bound_pos by (simp only: fl_def Let_def e) simp
qed


lemma fl_form:
  assumes "x \<noteq> 0"
  shows "fl x = inf_of_sign x \<or>
         (\<exists>m. 0 \<le> m \<and> m = round_to_even (\<bar>x\<bar> / 2 powr of_int (ulp_exponent x)) \<and>
              fl x = Num (sgn x * (of_int m * 2 powr of_int (ulp_exponent x))))"
proof -
  let ?m = "round_to_even (\<bar>x\<bar> / 2 powr of_int (ulp_exponent x))"
  have m: "0 \<le> ?m"
    by (rule round_to_even_nonneg) simp
  show ?thesis
  proof (cases "overflow_bound \<le> of_int ?m * 2 powr of_int (ulp_exponent x)")
    case True
    then have "fl x = inf_of_sign x"
      using assms by (simp only: fl_def Let_def if_True if_False)
    then show ?thesis ..
  next
    case False
    then have "fl x = Num (sgn x * (of_int ?m * 2 powr of_int (ulp_exponent x)))"
      using assms by (simp only: fl_def Let_def if_False)
    then show ?thesis using m by blast
  qed
qed

lemma fl_nonneg:
  assumes "0 \<le> x"
  shows "sq_like (fl x)"
proof (cases "x = 0")
  case True
  then show ?thesis by (simp add: fl_def)
next
  case False
  then have pos: "0 < x" using assms by simp
  from fl_form[OF False] show ?thesis
  proof
    assume "fl x = inf_of_sign x"
    then show ?thesis using pos by (simp add: inf_of_sign_def)
  next
    assume "\<exists>m. 0 \<le> m \<and> m = round_to_even (\<bar>x\<bar> / 2 powr of_int (ulp_exponent x)) \<and>
              fl x = Num (sgn x * (of_int m * 2 powr of_int (ulp_exponent x)))"
    then obtain m where "0 \<le> m"
      "fl x = Num (sgn x * (of_int m * 2 powr of_int (ulp_exponent x)))" by blast
    then show ?thesis using pos by simp
  qed
qed

lemma fl_nonpos:
  assumes "x \<le> 0"
  shows "\<not> positive (fl x)"
proof (cases "x = 0")
  case True
  then show ?thesis by (simp add: fl_def)
next
  case False
  then have neg: "x < 0" using assms by simp
  from fl_form[OF False] show ?thesis
  proof
    assume "fl x = inf_of_sign x"
    then show ?thesis using neg by (simp add: inf_of_sign_def)
  next
    assume "\<exists>m. 0 \<le> m \<and> m = round_to_even (\<bar>x\<bar> / 2 powr of_int (ulp_exponent x)) \<and>
              fl x = Num (sgn x * (of_int m * 2 powr of_int (ulp_exponent x)))"
    then obtain m where m: "0 \<le> m"
      "fl x = Num (sgn x * (of_int m * 2 powr of_int (ulp_exponent x)))" by blast
    have "0 \<le> of_int m * (2::real) powr of_int (ulp_exponent x)"
      using m(1) by simp
    then show ?thesis using neg m(2) by (simp add: mult_le_0_iff)
  qed
qed

lemma ulp_le:
  assumes "2 powr of_int (- 1074) \<le> x"
  shows "2 powr of_int (ulp_exponent x) \<le> x"
proof -
  have pos: "0 < x" using assms two_powr_int_pos[of "- 1074"] by linarith
  have "ulp_exponent x = - 1074 \<or> ulp_exponent x = \<lfloor>log 2 \<bar>x\<bar>\<rfloor> - 52"
    unfolding ulp_exponent_def by linarith
  then show ?thesis
  proof
    assume "ulp_exponent x = - 1074"
    then show ?thesis using assms by simp
  next
    assume e: "ulp_exponent x = \<lfloor>log 2 \<bar>x\<bar>\<rfloor> - 52"
    have "(2::real) powr of_int (\<lfloor>log 2 \<bar>x\<bar>\<rfloor> - 52) \<le> 2 powr of_int \<lfloor>log 2 \<bar>x\<bar>\<rfloor>"
      by (simp only: two_powr_le)
    also have "\<dots> \<le> \<bar>x\<bar>" using floor_log_int_bounds(1)[of "\<bar>x\<bar>"] pos by simp
    finally show ?thesis using pos e by simp
  qed
qed

lemma fl_positive:
  assumes "2 powr of_int (- 1074) \<le> x"
  shows "positive (fl x)"
proof -
  have pos: "0 < x" using assms two_powr_int_pos[of "- 1074"] by linarith
  then have nz: "x \<noteq> 0" by simp
  let ?e = "ulp_exponent x"
  have "1 \<le> \<bar>x\<bar> / 2 powr of_int ?e"
    using ulp_le[OF assms] pos by (simp add: le_divide_eq)
  then have "1 \<le> \<lfloor>\<bar>x\<bar> / 2 powr of_int ?e\<rfloor>"
    by (simp add: le_floor_iff)
  then have one: "1 \<le> round_to_even (\<bar>x\<bar> / 2 powr of_int ?e)"
    using round_to_even_ge_floor order_trans by blast
  from fl_form[OF nz] show ?thesis
  proof
    assume "fl x = inf_of_sign x"
    then show ?thesis using pos by (simp add: inf_of_sign_def)
  next
    assume "\<exists>m. 0 \<le> m \<and> m = round_to_even (\<bar>x\<bar> / 2 powr of_int ?e) \<and>
              fl x = Num (sgn x * (of_int m * 2 powr of_int ?e))"
    then obtain m where m: "m = round_to_even (\<bar>x\<bar> / 2 powr of_int ?e)"
      "fl x = Num (sgn x * (of_int m * 2 powr of_int ?e))" by blast
    have "0 < of_int m * (2::real) powr of_int ?e"
      using one m(1) by (simp add: zero_less_mult_iff)
    then show ?thesis using pos m(2) by simp
  qed
qed

lemma fl_grid:
  assumes "fl x = Num y"
  shows "\<exists>n::int. y = of_int n * 2 powr of_int (- 1074)"
proof (cases "x = 0")
  case True
  then have "y = 0" using assms by (simp add: fl_def)
  then show ?thesis by (intro exI[of _ 0]) simp
next
  case False
  let ?e = "ulp_exponent x"
  have "fl x \<noteq> inf_of_sign x"
    using assms False by (simp add: inf_of_sign_def)
  then obtain m where m: "fl x = Num (sgn x * (of_int m * 2 powr of_int ?e))"
    using fl_form[OF False] by blast
  obtain j :: nat where j: "?e = int j + (- 1074)"
    using ulp_exponent_ge[of x]
    by (metis add.commute diff_add_cancel diff_ge_0_iff_ge nonneg_int_cases)
  have "(2::real) powr of_int ?e = 2 powr of_int (int j) * 2 powr of_int (- 1074)"
    by (simp only: two_powr_sum j)
  also have "\<dots> = of_int (2 ^ j) * 2 powr of_int (- 1074)"
    by (simp add: powr_realpow)
  finally have e: "(2::real) powr of_int ?e = of_int (2 ^ j) * 2 powr of_int (- 1074)" .
  have "sgn x = 1 \<or> sgn x = - 1" using False by (simp add: sgn_if)
  then obtain s :: int where s: "sgn x = of_int s" by (metis of_int_1 of_int_minus)
  have "y = of_int s * (of_int m * (of_int (2 ^ j) * 2 powr of_int (- 1074)))"
    using assms m by (simp only: e s) simp
  then have "y = of_int (s * m * 2 ^ j) * 2 powr of_int (- 1074)"
    by (simp only: of_int_mult mult.assoc)
  then show ?thesis by blast
qed

lemma fl_rel_error:
  assumes lo: "1 / 2 ^ 1022 \<le> \<bar>x\<bar>" and hi: "\<bar>x\<bar> \<le> 2 ^ 1023"
  shows "\<exists>y. fl x = Num y \<and> \<bar>y - x\<bar> \<le> \<bar>x\<bar> / 2 ^ 53"
proof -
  let ?L = "\<lfloor>log 2 \<bar>x\<bar>\<rfloor>"
  let ?e = "ulp_exponent x"
  let ?q = "\<bar>x\<bar> / 2 powr of_int ?e"
  let ?m = "round_to_even ?q"
  let ?y = "(of_int ?m :: real) * 2 powr of_int ?e"
  have lo': "2 powr of_int (- 1022) \<le> \<bar>x\<bar>"
    using lo by (simp add: powr_minus powr_numeral inverse_eq_divide)
  have pos: "0 < \<bar>x\<bar>" using lo' two_powr_int_pos[of "- 1022"] by linarith
  then have nz: "x \<noteq> 0" by simp
  have "(2::real) powr of_int (- 1022) < 2 powr of_int (?L + 1)"
    using floor_log_int_bounds(2)[OF pos] lo' by linarith
  then have "- 1022 < ?L + 1" by (simp only: two_powr_less)
  then have e: "?e = ?L - 52" unfolding ulp_exponent_def by linarith
  have "(2::real) powr of_int ?e * 2 powr of_int 52 = 2 powr of_int ?L"
    by (simp only: two_powr_sum e) simp
  then have ulp: "(2::real) powr of_int ?e * 2 ^ 52 \<le> \<bar>x\<bar>"
    using floor_log_int_bounds(1)[OF pos] by (simp add: powr_numeral)
  have "\<bar>?y - \<bar>x\<bar>\<bar> = \<bar>of_int ?m - ?q\<bar> * 2 powr of_int ?e"
  proof -
    have "?y - \<bar>x\<bar> = (of_int ?m - ?q) * 2 powr of_int ?e"
      by (simp add: left_diff_distrib)
    then show ?thesis by (simp only: abs_mult) simp
  qed
  also have "\<dots> \<le> 1 / 2 * 2 powr of_int ?e"
    using round_to_even_near[of ?q] by (simp only: mult_right_mono two_powr_int_pos less_imp_le)
  finally have err: "\<bar>?y - \<bar>x\<bar>\<bar> \<le> 2 powr of_int ?e / 2" by simp
  have "2 powr of_int ?e / 2 * 2 ^ 53 = (2::real) powr of_int ?e * 2 ^ 52" by simp
  then have half: "2 powr of_int ?e / 2 \<le> \<bar>x\<bar> / 2 ^ 53"
    using ulp by (simp add: le_divide_eq)
  have bound: "\<bar>?y - \<bar>x\<bar>\<bar> \<le> \<bar>x\<bar> / 2 ^ 53"
    using err half by linarith
  have "\<bar>x\<bar> / 2 ^ 53 \<le> 2 ^ 1023 / 2 ^ 53" using hi by (simp add: divide_right_mono)
  then have "?y \<le> 2 ^ 1023 + 2 ^ 1023 / 2 ^ 53" using bound hi by linarith
  also have "\<dots> < overflow_bound" by (simp add: overflow_bound_def)
  finally have fin: "\<not> overflow_bound \<le> ?y" by simp
  have flx: "fl x = Num (sgn x * ?y)"
    using nz fin by (simp only: fl_def Let_def if_False)
  define y where "y = ?y"
  have "sgn x * y - x = sgn x * (y - \<bar>x\<bar>)"
    by (simp add: right_diff_distrib sgn_mult_abs)
  then have "\<bar>sgn x * y - x\<bar> = \<bar>y - \<bar>x\<bar>\<bar>"
    using nz by (simp add: abs_mult abs_sgn_eq)
  then show ?thesis
    using flx bound unfolding y_def by auto
qed

lemma fl_zero [simp]: "fl 0 = Num 0"
  by (simp add: fl_def)


lemma inf_of_sign_minus: "inf_of_sign (- x) = js_neg (inf_of_sign x)"
  by (simp add: inf_of_sign_def)


lemma fl_minus: "fl (- x) = js_neg (fl x)"
proof (cases "x = 0")
  case True
  then show ?thesis
    by simp
next
  case False
  have e: "ulp_exponent (- x) = ulp_exponent x"
    by (simp add: ulp_exponent_def)
  let ?y = "(of_int (round_to_even (\<bar>x\<bar> / 2 powr of_int (ulp_exponent x))) :: real) *
            2 powr of_int (ulp_exponent x)"
  show ?thesis
  proof (cases "overflow_bound \<le> ?y")
    case True
    then have "fl x = inf_of_sign x" "fl (- x) = inf_of_sign (- x)"
      using False by (simp_all only: fl_def Let_def e abs_minus_cancel neg_equal_0_iff_equal
          if_True if_False)
    then show ?thesis
      by (simp add: inf_of_sign_minus)
  next
    case no: False
    then have "fl x = Num (sgn x * ?y)" "fl (- x) = Num (sgn (- x) * ?y)"
      using False by (simp_all only: fl_def Let_def e abs_minus_cancel neg_equal_0_iff_equal
          if_False)
    then show ?thesis
      by (simp add: sgn_minus)
  qed
qed


lemma negative_js_neg: "negative (js_neg v) = positive v"
  by (cases v) simp_all


lemma positive_js_neg: "positive (js_neg v) = negative v"
  by (cases v) simp_all


lemma fl_negative:
  assumes "x \<le> - (2 powr of_int (- 1074))"
  shows "negative (fl x)"
proof -
  have "positive (fl (- x))"
    using assms by (intro fl_positive) linarith
  then show ?thesis
    by (simp add: fl_minus positive_js_neg)
qed


lemma fl_nonneg_not_negative:
  assumes "0 \<le> x"
  shows "\<not> negative (fl x)"
  using fl_nonneg[OF assms] by (cases "fl x") simp_all


lemma on_grid_fl: "on_grid (fl x)"
proof (cases "fl x")
  case (Num y)
  then obtain n :: int where "y = of_int n * 2 powr of_int (- 1074)"
    using fl_grid by blast
  then have "y / 2 powr of_int (- 1074) = of_int n"
    by simp
  then show ?thesis
    using Num by (simp add: on_grid_def)
qed (simp_all add: on_grid_def)


lemma grid_gap:
  fixes a b u :: real
  assumes u: "0 < u" and a: "a / u \<in> \<int>" and b: "b / u \<in> \<int>" and lt: "a < b"
  shows "u \<le> b - a"
proof -
  obtain m :: int where m: "a / u = of_int m"
    using a by (elim Ints_cases)
  obtain n :: int where n: "b / u = of_int n"
    using b by (elim Ints_cases)
  have "a / u < b / u"
    using lt u by (simp only: divide_strict_right_mono)
  then have "m < n"
    by (simp only: m n of_int_less_iff)
  then have "m + 1 \<le> n"
    by simp
  then have "(of_int (m + 1) :: real) \<le> of_int n"
    by (simp only: of_int_le_iff)
  then have "a / u + 1 \<le> b / u"
    by (simp add: m n)
  then have "(a / u + 1) * u \<le> b / u * u"
    using u by (simp only: mult_le_cancel_right_pos)
  then have "a + u \<le> b"
    using u by (simp add: distrib_right)
  then show ?thesis
    by simp
qed

lemma on_grid_diff:
  assumes "on_grid (Num a)" "on_grid (Num b)" "a < b"
  shows "2 powr of_int (- 1074) \<le> b - a"
proof (rule grid_gap)
  show "0 < (2::real) powr of_int (- 1074)"
    by (rule two_powr_int_pos)
  show "a / 2 powr of_int (- 1074) \<in> \<int>"
    using assms(1) by (simp only: on_grid_def jsnum.case)
  show "b / 2 powr of_int (- 1074) \<in> \<int>"
    using assms(2) by (simp only: on_grid_def jsnum.case)
  show "a < b"
    by (rule assms(3))
qed

text \<open>
  Two checks of the rounding against known doubles: \<open>2 ^ 53 + 1\<close> is a tie and goes to
  the even \<open>2 ^ 53\<close>, and \<open>2 ^ 53 + 3\<close> is a tie that goes up to \<open>2 ^ 53 + 4\<close>.
\<close>

lemma ulp_exponent_2_53:
  assumes "2 ^ 53 \<le> x" "x < 2 ^ 54"
  shows "ulp_exponent x = 1"
proof -
  have "\<lfloor>log 2 \<bar>x\<bar>\<rfloor> = 53"
    using assms by (subst floor_log_eq_powr_iff) (simp_all add: powr_numeral)
  then show ?thesis
    by (simp add: ulp_exponent_def)
qed

lemma fl_tie_to_even_down: "fl 9007199254740993 = Num 9007199254740992"
proof -
  have e: "ulp_exponent 9007199254740993 = 1"
    by (rule ulp_exponent_2_53) simp_all
  have "\<lfloor>(9007199254740993::real) / 2\<rfloor> = 4503599627370496"
    by (simp add: floor_eq_iff)
  then have "round_to_even (9007199254740993 / 2) = 4503599627370496"
    by (simp add: round_to_even_def Let_def)
  then show ?thesis
    by (simp add: fl_def Let_def e overflow_bound_def)
qed

lemma fl_tie_to_even_up: "fl 9007199254740995 = Num 9007199254740996"
proof -
  have e: "ulp_exponent 9007199254740995 = 1"
    by (rule ulp_exponent_2_53) simp_all
  have "\<lfloor>(9007199254740995::real) / 2\<rfloor> = 4503599627370497"
    by (simp add: floor_eq_iff)
  then have "round_to_even (9007199254740995 / 2) = 4503599627370498"
    by (simp add: round_to_even_def Let_def)
  then show ?thesis
    by (simp add: fl_def Let_def e overflow_bound_def)
qed

text \<open>
  Evaluating the rounding at a given real: with the binary exponent of \<open>x\<close> known, the
  result is the multiple of the unit in the last place that lies within half a unit.
\<close>

lemma round_to_even_unique:
  assumes "of_int m - 1 / 2 < q" and "q < of_int m + 1 / 2"
  shows "round_to_even q = m"
proof -
  have "\<lfloor>q\<rfloor> = m \<or> \<lfloor>q\<rfloor> = m - 1"
    using assms by linarith
  then show ?thesis
  proof
    assume f: "\<lfloor>q\<rfloor> = m"
    then have "q - of_int \<lfloor>q\<rfloor> < 1 / 2"
      using assms by simp
    then show ?thesis
      using f by (simp add: round_to_even_def Let_def)
  next
    assume f: "\<lfloor>q\<rfloor> = m - 1"
    then have "1 / 2 < q - of_int \<lfloor>q\<rfloor>"
      using assms by simp
    then show ?thesis
      using f by (simp add: round_to_even_def Let_def)
  qed
qed

lemma fl_eval:
  assumes e: "- 1074 \<le> e" "e \<le> 970"
    and lo: "2 powr of_int (e + 52) \<le> x" and hi: "x < 2 powr of_int (e + 53)"
    and m1: "of_int m - 1 / 2 < x / 2 powr of_int e"
    and m2: "x / 2 powr of_int e < of_int m + 1 / 2"
  shows "fl x = Num (of_int m * 2 powr of_int e)"
proof -
  have pos: "0 < x"
    using lo two_powr_int_pos[of "e + 52"] by linarith
  have "\<lfloor>log 2 \<bar>x\<bar>\<rfloor> = e + 52"
    using pos lo hi by (subst floor_log_eq_powr_iff) (simp_all add: add.commute)
  then have ue: "ulp_exponent x = e"
    unfolding ulp_exponent_def using e by linarith
  have r: "round_to_even (x / 2 powr of_int e) = m"
    using m1 m2 by (rule round_to_even_unique)
  have "x / 2 powr of_int e < 2 powr of_int (e + 53) / 2 powr of_int e"
    using hi two_powr_int_pos[of e] by (simp add: divide_strict_right_mono)
  then have "x / 2 powr of_int e < 2 powr of_int 53"
    by (simp only: two_powr_diff) simp
  then have "of_int m - 1 / 2 < (2::real) ^ 53"
    using m1 by (simp add: powr_numeral)
  then have "of_int m < (2::real) ^ 53 + 1 / 2"
    by linarith
  then have "m \<le> 2 ^ 53"
    by (simp add: floor_less_iff flip: floor_le_iff)
  then have "(of_int m :: real) \<le> 2 powr of_int 53"
    by (simp add: powr_numeral flip: of_int_le_iff)
  then have "of_int m * 2 powr of_int e \<le> (2::real) powr of_int 53 * 2 powr of_int e"
    using two_powr_int_pos[of e] by (simp add: mult_right_mono)
  also have "\<dots> = (2::real) powr of_int (53 + e)"
    by (simp only: two_powr_sum)
  also have "\<dots> < (2::real) powr of_int 1024"
    using e by (simp only: two_powr_less)
  finally have fin: "\<not> overflow_bound \<le> of_int m * 2 powr of_int e"
    by (simp only: pow_1024)
  show ?thesis
    using pos fin by (simp add: fl_def Let_def ue r)
qed

text \<open>
  The three roundings behind \<^verbatim>\<open>cosineSimilarity([1, 1], [1, 1])\<close>:
  \<^verbatim>\<open>Math.sqrt(2)\<close> is \<^verbatim>\<open>1.4142135623730951\<close>, its square is
  \<^verbatim>\<open>2.0000000000000004\<close>, and 2 divided by that is \<^verbatim>\<open>0.9999999999999998\<close>.
\<close>

lemma fl_sqrt_2: "fl (sqrt 2) = Num (6369051672525773 / 2 ^ 52)"
proof -
  have lo: "12738103345051545 / 2 ^ 53 < sqrt 2"
    by (rule real_less_rsqrt) (simp add: power_divide)
  have hi: "sqrt 2 < 12738103345051547 / 2 ^ 53"
    by (rule real_less_lsqrt) (simp_all add: power_divide)
  have one: "1 \<le> sqrt 2" and two: "sqrt 2 < 2"
    using lo hi by simp_all
  have "fl (sqrt 2) = Num (of_int 6369051672525773 * 2 powr of_int (- 52))"
  proof (rule fl_eval)
    show "2 powr of_int (- 52 + 52) \<le> sqrt 2"
      using one by simp
    show "sqrt 2 < 2 powr of_int (- 52 + 53)"
      using two by simp
    show "of_int 6369051672525773 - 1 / 2 < sqrt 2 / 2 powr of_int (- 52)"
      using lo by (simp add: powr_minus powr_numeral field_simps)
    show "sqrt 2 / 2 powr of_int (- 52) < of_int 6369051672525773 + 1 / 2"
      using hi by (simp add: powr_minus powr_numeral field_simps)
  qed simp_all
  then show ?thesis
    by (simp add: powr_minus powr_numeral field_simps)
qed

lemma fl_sqrt_2_squared:
  "fl (6369051672525773 / 2 ^ 52 * (6369051672525773 / 2 ^ 52)) = Num (4503599627370497 / 2 ^ 51)"
proof -
  have "fl (6369051672525773 / 2 ^ 52 * (6369051672525773 / 2 ^ 52)) =
      Num (of_int 4503599627370497 * 2 powr of_int (- 51))"
    by (rule fl_eval) (simp_all add: powr_minus powr_numeral)
  then show ?thesis
    by (simp add: powr_minus powr_numeral field_simps)
qed

lemma fl_2_over_sqrt_2_squared:
  "fl (2 / (4503599627370497 / 2 ^ 51)) = Num (1 - 1 / 2 ^ 52)"
proof -
  have "fl (2 / (4503599627370497 / 2 ^ 51)) =
      Num (of_int 9007199254740990 * 2 powr of_int (- 53))"
    by (rule fl_eval) (simp_all add: powr_minus powr_numeral)
  then show ?thesis
    by (simp add: powr_minus powr_numeral field_simps)
qed

text \<open>
  Rounding is monotone against a double: a real that is at most a double \<open>M\<close> in
  magnitude rounds to a double that is at most \<open>M\<close> in magnitude, and a real that is at
  least a power of two rounds to at least that power, or overflows.
\<close>

lemma round_to_even_le_int:
  assumes "q \<le> of_int N"
  shows "round_to_even q \<le> N"
proof -
  have "of_int (round_to_even q) \<le> q + 1 / 2"
    using round_to_even_near[of q] by linarith
  then have "(of_int (round_to_even q) :: real) < of_int (N + 1)"
    using assms by simp
  then show ?thesis
    by (simp only: of_int_less_iff)
qed

lemma round_to_even_ge_int:
  assumes "of_int N \<le> q"
  shows "N \<le> round_to_even q"
proof -
  have "q - 1 / 2 \<le> of_int (round_to_even q)"
    using round_to_even_near[of q] by linarith
  then have "(of_int (N - 1) :: real) < of_int (round_to_even q)"
    using assms by simp
  then show ?thesis
    by (simp only: of_int_less_iff)
qed

lemma two_powr_split:
  assumes "e \<le> j"
  shows "(2::real) powr of_int j = of_int (2 ^ nat (j - e)) * (2::real) powr of_int e"
proof -
  have n: "real (nat (j - e)) = of_int (j - e)"
    using assms by simp
  have "(2::real) ^ nat (j - e) = (2::real) powr real (nat (j - e))"
    by (rule powr_realpow[symmetric]) simp
  then have "(2::real) ^ nat (j - e) = (2::real) powr of_int (j - e)"
    by (simp only: n)
  then have "of_int (2 ^ nat (j - e)) * (2::real) powr of_int e =
      (2::real) powr of_int (j - e) * (2::real) powr of_int e"
    by simp
  also have "\<dots> = (2::real) powr of_int j"
    by (simp only: two_powr_sum) simp
  finally show ?thesis
    by simp
qed

lemma fl_le_double_pos:
  assumes M: "M = of_int k * (2::real) powr of_int j" and k: "k < 2 ^ 53" and j: "- 1074 \<le> j"
    and fin: "M < (2::real) powr of_int 1024" and pos: "0 < x" and x: "x \<le> M"
  shows "\<exists>y. fl x = Num y \<and> 0 \<le> y \<and> y \<le> M"
proof -
  let ?L = "\<lfloor>log 2 \<bar>x\<bar>\<rfloor>"
  let ?e = "ulp_exponent x"
  have "(of_int k :: real) < (2::real) powr of_int 53"
    using k by (simp add: powr_numeral flip: of_int_less_iff)
  then have "of_int k * (2::real) powr of_int j < (2::real) powr of_int 53 * (2::real) powr of_int j"
    using two_powr_int_pos[of j] by (simp add: mult_strict_right_mono)
  then have Mlt: "M < (2::real) powr of_int (53 + j)"
    by (simp only: two_powr_sum M)
  have "(2::real) powr of_int ?L \<le> x"
    using floor_log_int_bounds(1)[of x] pos by simp
  then have "(2::real) powr of_int ?L < (2::real) powr of_int (53 + j)"
    using x Mlt by linarith
  then have "?L < 53 + j"
    by (simp only: two_powr_less)
  then have ej: "?e \<le> j"
    unfolding ulp_exponent_def using j by linarith
  define N where "N = k * 2 ^ nat (j - ?e)"
  have MN: "M = of_int N * (2::real) powr of_int ?e"
    by (simp only: M N_def of_int_mult two_powr_split[OF ej] mult.assoc)
  have "x / (2::real) powr of_int ?e \<le> M / (2::real) powr of_int ?e"
    using x two_powr_int_pos[of ?e] by (simp add: divide_right_mono)
  also have "\<dots> = of_int N"
    using two_powr_int_pos[of ?e] by (simp add: MN)
  finally have "round_to_even (x / (2::real) powr of_int ?e) \<le> N"
    by (rule round_to_even_le_int)
  then have "(of_int (round_to_even (x / (2::real) powr of_int ?e)) :: real) \<le> of_int N"
    by (simp only: of_int_le_iff)
  then have "of_int (round_to_even (x / (2::real) powr of_int ?e)) * (2::real) powr of_int ?e \<le>
      of_int N * (2::real) powr of_int ?e"
    using two_powr_int_pos[of ?e] by (intro mult_right_mono) simp_all
  then have yM: "of_int (round_to_even (x / (2::real) powr of_int ?e)) * (2::real) powr of_int ?e \<le> M"
    by (simp only: MN)
  then have nov: "\<not> overflow_bound \<le>
      of_int (round_to_even (x / (2::real) powr of_int ?e)) * (2::real) powr of_int ?e"
    using fin by (simp only: pow_1024)
  have "0 \<le> x / (2::real) powr of_int ?e"
    using pos two_powr_int_pos[of ?e] by simp
  then have "0 \<le> round_to_even (x / (2::real) powr of_int ?e)"
    by (rule round_to_even_nonneg)
  then have y0: "0 \<le> of_int (round_to_even (x / (2::real) powr of_int ?e)) * (2::real) powr of_int ?e"
    using two_powr_int_pos[of ?e] by simp
  have "fl x = Num (of_int (round_to_even (x / (2::real) powr of_int ?e)) * (2::real) powr of_int ?e)"
    using pos nov by (simp add: fl_def Let_def)
  then show ?thesis
    using y0 yM by blast
qed

lemma fl_le_double:
  assumes M: "M = of_int k * (2::real) powr of_int j" and k: "k < 2 ^ 53" and j: "- 1074 \<le> j"
    and fin: "M < (2::real) powr of_int 1024" and x: "\<bar>x\<bar> \<le> M"
  shows "\<exists>y. fl x = Num y \<and> \<bar>y\<bar> \<le> M \<and> (0 \<le> x \<longrightarrow> 0 \<le> y)"
proof -
  consider "x = 0" | "0 < x" | "x < 0"
    by linarith
  then show ?thesis
  proof cases
    case 1
    then show ?thesis
      using x by simp
  next
    case 2
    then have "x \<le> M"
      using x by simp
    from fl_le_double_pos[OF M k j fin 2 this] show ?thesis
      by auto
  next
    case 3
    then have "0 < - x" "- x \<le> M"
      using x by simp_all
    from fl_le_double_pos[OF M k j fin this] obtain y where
      y: "fl (- x) = Num y" "0 \<le> y" "y \<le> M"
      by blast
    have "fl x = js_neg (fl (- x))"
      using fl_minus[of "- x"] by simp
    then have "fl x = Num (- y)"
      by (simp add: y(1))
    then show ?thesis
      using y 3 by simp
  qed
qed

lemma fl_ge_pow2:
  assumes j: "- 1074 \<le> j" and x: "(2::real) powr of_int j \<le> x"
  shows "fl x = PInf \<or> (\<exists>y. fl x = Num y \<and> (2::real) powr of_int j \<le> y)"
proof -
  let ?e = "ulp_exponent x"
  let ?q = "x / (2::real) powr of_int ?e"
  have pos: "0 < x"
    using x two_powr_int_pos[of j] by linarith
  have "(2::real) powr of_int (- 1074) \<le> (2::real) powr of_int j"
    using j by (simp only: two_powr_le)
  then have "(2::real) powr of_int (- 1074) \<le> x"
    using x by linarith
  then have ex: "(2::real) powr of_int ?e \<le> x"
    by (rule ulp_le)
  have low: "(2::real) powr of_int j \<le> of_int (round_to_even ?q) * (2::real) powr of_int ?e"
  proof (cases "?e \<le> j")
    case True
    have "of_int (2 ^ nat (j - ?e)) = (2::real) powr of_int j / (2::real) powr of_int ?e"
      using two_powr_int_pos[of ?e] by (simp add: two_powr_split[OF True])
    also have "\<dots> \<le> ?q"
      using x two_powr_int_pos[of ?e] by (simp add: divide_right_mono)
    finally have "2 ^ nat (j - ?e) \<le> round_to_even ?q"
      by (rule round_to_even_ge_int)
    then have "(of_int (2 ^ nat (j - ?e)) :: real) \<le> of_int (round_to_even ?q)"
      by (simp only: of_int_le_iff)
    then have "of_int (2 ^ nat (j - ?e)) * (2::real) powr of_int ?e \<le>
        of_int (round_to_even ?q) * (2::real) powr of_int ?e"
      using two_powr_int_pos[of ?e] by (intro mult_right_mono) simp_all
    then show ?thesis
      by (simp only: two_powr_split[OF True])
  next
    case False
    then have a: "(2::real) powr of_int j \<le> (2::real) powr of_int ?e"
      by (simp only: two_powr_le)
    have "of_int 1 \<le> ?q"
      using ex two_powr_int_pos[of ?e] by simp
    then have "1 \<le> round_to_even ?q"
      by (rule round_to_even_ge_int)
    then have "(1::real) \<le> of_int (round_to_even ?q)"
      by simp
    then have "1 * (2::real) powr of_int ?e \<le> of_int (round_to_even ?q) * (2::real) powr of_int ?e"
      using two_powr_int_pos[of ?e] by (intro mult_right_mono) simp_all
    then have b: "(2::real) powr of_int ?e \<le> of_int (round_to_even ?q) * (2::real) powr of_int ?e"
      by (simp only: mult_1)
    from a b show ?thesis
      by (rule order_trans)
  qed
  show ?thesis
  proof (cases "overflow_bound \<le> of_int (round_to_even ?q) * (2::real) powr of_int ?e")
    case True
    then show ?thesis
      using pos by (simp add: fl_def Let_def inf_of_sign_def)
  next
    case False
    then have "fl x = Num (of_int (round_to_even ?q) * (2::real) powr of_int ?e)"
      using pos by (simp add: fl_def Let_def)
    then show ?thesis
      using low by blast
  qed
qed


section \<open>Properties of the loop\<close>

lemmas cosine_eval = cosineSimilarity_def cosine_loop.simps at_index_def fl_int

lemma zero_vector_iff: "zero_vector v = (\<forall>x\<in>set v. x = Num 0)"
  by (simp add: zero_vector_def list_all_iff)

text \<open>
  \<^verbatim>\<open>normA\<close> stays zero over an all-zero \<^verbatim>\<open>vecA\<close>, whatever \<^verbatim>\<open>vecB\<close> is;
  \<^verbatim>\<open>normB\<close> stays zero over an all-zero \<^verbatim>\<open>vecB\<close> only as long as the loop reads
  inside it.
\<close>

lemma normA_zero:
  assumes "\<forall>x\<in>set a. x = Num 0"
  shows "fst (snd (cosine_loop a b i (d, Num 0, nb))) = Num 0"
  using assms
proof (induction a b i "(d, Num 0, nb)" arbitrary: d nb rule: cosine_loop.induct)
  case (1 vecA vecB i dotProduct normB)
  show ?case
  proof (cases "i < length vecA")
    case True
    then have "at_index vecA i = Num 0"
      using 1(2) by (simp add: at_index_def)
    then show ?thesis
      using True 1 by (simp add: cosine_loop.simps[of vecA vecB i])
  next
    case False
    then show ?thesis
      by (simp add: cosine_loop.simps[of vecA vecB i])
  qed
qed

lemma normB_zero:
  assumes "\<forall>x\<in>set b. x = Num 0" "length a \<le> length b"
  shows "snd (snd (cosine_loop a b i (d, na, Num 0))) = Num 0"
  using assms
proof (induction a b i "(d, na, Num 0)" arbitrary: d na rule: cosine_loop.induct)
  case (1 vecA vecB i dotProduct normA)
  show ?case
  proof (cases "i < length vecA")
    case True
    then have "at_index vecB i = Num 0"
      using 1(2,3) by (simp add: at_index_def)
    then show ?thesis
      using True 1 by (simp add: cosine_loop.simps[of vecA vecB i])
  next
    case False
    then show ?thesis
      by (simp add: cosine_loop.simps[of vecA vecB i])
  qed
qed

lemma cosineSimilarity_normA_zero:
  assumes "\<forall>x\<in>set a. x = Num 0"
  shows "cosineSimilarity a b = Num 0"
proof -
  obtain d na nb where acc: "cosine_loop a b 0 (Num 0, Num 0, Num 0) = (d, na, nb)"
    by (metis prod_cases3)
  have "na = Num 0"
    using normA_zero[OF assms, of b 0 "Num 0" "Num 0"] acc by simp
  then show ?thesis
    by (simp add: cosineSimilarity_def acc)
qed

lemma cosineSimilarity_normB_zero:
  assumes "\<forall>x\<in>set b. x = Num 0" "length a \<le> length b"
  shows "cosineSimilarity a b = Num 0"
proof -
  obtain d na nb where acc: "cosine_loop a b 0 (Num 0, Num 0, Num 0) = (d, na, nb)"
    by (metis prod_cases3)
  have "nb = Num 0"
    using normB_zero[OF assms, of 0 "Num 0" "Num 0"] acc by simp
  then show ?thesis
    by (simp add: cosineSimilarity_def acc)
qed

lemma cosineSimilarity_empty_query: "cosineSimilarity [] v = Num 0"
  by (simp add: cosineSimilarity_def cosine_loop.simps)

text \<open>The loop reads \<^verbatim>\<open>vecB\<close> at the indices of \<^verbatim>\<open>vecA\<close> only.\<close>

lemma cosine_loop_cong:
  assumes "\<forall>j. i \<le> j \<and> j < length a \<longrightarrow> at_index b j = at_index b' j"
  shows "cosine_loop a b i acc = cosine_loop a b' i acc"
  using assms
proof (induction a b i acc rule: cosine_loop.induct)
  case (1 vecA vecB i dotProduct normA normB)
  show ?case
  proof (cases "i < length vecA")
    case True
    have here: "at_index vecB i = at_index b' i"
      using True 1(2) by simp
    have "cosine_loop vecA vecB (i + 1)
            (js_add dotProduct (js_mul (at_index vecA i) (at_index vecB i)),
             js_add normA (js_mul (at_index vecA i) (at_index vecA i)),
             js_add normB (js_mul (at_index vecB i) (at_index vecB i))) =
          cosine_loop vecA b' (i + 1)
            (js_add dotProduct (js_mul (at_index vecA i) (at_index vecB i)),
             js_add normA (js_mul (at_index vecA i) (at_index vecA i)),
             js_add normB (js_mul (at_index vecB i) (at_index vecB i)))"
      using True 1(2) by (intro 1(1)) simp_all
    then show ?thesis
      using True here
      by (simp add: cosine_loop.simps[of vecA vecB i] cosine_loop.simps[of vecA b' i])
  next
    case False
    then show ?thesis
      by (simp add: cosine_loop.simps[of vecA vecB i] cosine_loop.simps[of vecA b' i])
  qed
qed

text \<open>
  A candidate longer than the query is scored on its first entries, as many as the query
  has.
\<close>

lemma cosineSimilarity_prefix:
  assumes "length q \<le> length v"
  shows "cosineSimilarity q v = cosineSimilarity q (take (length q) v)"
proof -
  have "\<forall>j. 0 \<le> j \<and> j < length q \<longrightarrow> at_index v j = at_index (take (length q) v) j"
    using assms by (simp add: at_index_def)
  then have "cosine_loop q v 0 (Num 0, Num 0, Num 0) =
             cosine_loop q (take (length q) v) 0 (Num 0, Num 0, Num 0)"
    by (rule cosine_loop_cong)
  then show ?thesis
    by (simp add: cosineSimilarity_def)
qed

text \<open>\<^verbatim>\<open>normA\<close> does not depend on \<^verbatim>\<open>vecB\<close>, nor on the other two accumulators.\<close>

lemma normA_independent:
  "fst (snd (cosine_loop a b i (d, na, nb))) = fst (snd (cosine_loop a b' i (d', na, nb')))"
proof (induction a b i "(d, na, nb)" arbitrary: d na nb d' nb' rule: cosine_loop.induct)
  case (1 vecA vecB i dotProduct normA normB)
  show ?case
  proof (cases "i < length vecA")
    case True
    then show ?thesis
      using 1[OF True]
      by (simp add: cosine_loop.simps[of vecA vecB i] cosine_loop.simps[of vecA b' i])
  next
    case False
    then show ?thesis
      by (simp add: cosine_loop.simps[of vecA vecB i] cosine_loop.simps[of vecA b' i])
  qed
qed

lemma normA_of_loop:
  "fst (snd (cosine_loop a b 0 (Num 0, Num 0, Num 0))) = normA_of a"
  unfolding normA_of_def by (rule normA_independent)

text \<open>Once NaN, \<^verbatim>\<open>dotProduct\<close> and \<^verbatim>\<open>normB\<close> stay NaN.\<close>

lemma js_add_NaN [simp]: "js_add a NaN = NaN" "js_add NaN b = NaN"
  by (cases a; simp) simp

lemma js_mul_NaN [simp]: "js_mul a NaN = NaN" "js_mul NaN b = NaN"
  by (cases a; simp) simp

lemma loop_NaN_stays:
  "\<exists>na'. cosine_loop a b i (NaN, na, NaN) = (NaN, na', NaN)"
proof (induction a b i "(NaN, na, NaN)" arbitrary: na rule: cosine_loop.induct)
  case (1 vecA vecB i normA)
  show ?case
  proof (cases "i < length vecA")
    case True
    then show ?thesis
      using 1[OF True] by (simp add: cosine_loop.simps[of vecA vecB i])
  next
    case False
    then show ?thesis
      by (simp add: cosine_loop.simps[of vecA vecB i])
  qed
qed

lemma loop_short:
  assumes "i \<le> length b" "length b < length a"
  shows "\<exists>na'. cosine_loop a b i (d, na, nb) = (NaN, na', NaN)"
  using assms
proof (induction a b i "(d, na, nb)" arbitrary: d na nb rule: cosine_loop.induct)
  case (1 vecA vecB i dotProduct normA normB)
  have lt: "i < length vecA"
    using 1(2,3) by simp
  show ?case
  proof (cases "i < length vecB")
    case True
    then show ?thesis
      using 1(1)[OF lt] 1(3) lt by (simp add: cosine_loop.simps[of vecA vecB i])
  next
    case False
    then have "at_index vecB i = NaN"
      by (simp add: at_index_def)
    then show ?thesis
      using lt loop_NaN_stays[of vecA vecB "i + 1"]
      by (simp add: cosine_loop.simps[of vecA vecB i])
  qed
qed

text \<open>
  A candidate shorter than the query, the empty one included, is scored NaN, unless the
  query's own sum of squares is zero.
\<close>

lemma cosineSimilarity_short:
  assumes "length v < length q"
  shows "cosineSimilarity q v = (if normA_of q = Num 0 then Num 0 else NaN)"
proof -
  obtain na where acc: "cosine_loop q v 0 (Num 0, Num 0, Num 0) = (NaN, na, NaN)"
    using loop_short[of 0 v q "Num 0" "Num 0" "Num 0"] assms by auto
  have "na = normA_of q"
    using normA_of_loop[of q v] acc by simp
  then show ?thesis
    by (simp add: cosineSimilarity_def acc)
qed

text \<open>A score is a double, an infinity or NaN.\<close>

lemma on_grid_js_div: "on_grid (js_div a b)"
  by (cases a; cases b) (simp_all add: on_grid_fl, simp_all add: on_grid_def inf_of_sign_def)

lemma on_grid_cosineSimilarity: "on_grid (cosineSimilarity a b)"
proof -
  obtain d na nb where acc: "cosine_loop a b 0 (Num 0, Num 0, Num 0) = (d, na, nb)"
    by (metis prod_cases3)
  have "on_grid (Num 0)"
    by (simp add: on_grid_def)
  then show ?thesis
    by (simp add: cosineSimilarity_def acc on_grid_js_div)
qed

text \<open>
  One step of an accumulator. With entries of magnitude at most \<open>2 ^ 500\<close> a product is at
  most \<open>2 ^ 1000\<close>, and the sum after \<open>i + 1\<close> steps is at most \<open>(i + 1) * 2 ^ 1000\<close>, a
  double below the overflow threshold as long as \<open>i < 2 ^ 20\<close>.
\<close>

lemma acc_step:
  assumes x: "\<bar>x\<bar> \<le> 2 powr of_int 500" and y: "\<bar>y\<bar> \<le> 2 powr of_int 500"
    and s: "\<bar>s\<bar> \<le> of_nat i * 2 powr of_int 1000" and i: "i < 2 ^ 20"
  shows "\<exists>p s'. fl (x * y) = Num p \<and> \<bar>p\<bar> \<le> 2 powr of_int 1000 \<and> (0 \<le> x * y \<longrightarrow> 0 \<le> p) \<and>
           fl (s + p) = Num s' \<and> \<bar>s'\<bar> \<le> of_nat (Suc i) * 2 powr of_int 1000 \<and>
           (0 \<le> s + p \<longrightarrow> 0 \<le> s')"
proof -
  define B where "B = (2::real) powr of_int 1000"
  define b where "b = (2::real) powr of_int 500"
  have bpos: "0 \<le> b" and Bpos: "0 < B"
    by (simp_all add: b_def B_def)
  have "b * b = (2::real) powr of_int (500 + 500)"
    unfolding b_def by (simp only: two_powr_sum)
  then have bb: "b * b = B"
    by (simp add: B_def)
  have "\<bar>x\<bar> * \<bar>y\<bar> \<le> b * b"
    using x y bpos unfolding b_def[symmetric] by (intro mult_mono) simp_all
  then have xy: "\<bar>x * y\<bar> \<le> B"
    by (simp only: abs_mult bb)
  have B1: "B = of_int 1 * 2 powr of_int 1000"
    by (simp add: B_def)
  have fin1: "B < 2 powr of_int 1024"
    unfolding B_def by (simp only: two_powr_less)
  obtain p where p: "fl (x * y) = Num p" "\<bar>p\<bar> \<le> B" "0 \<le> x * y \<longrightarrow> 0 \<le> p"
    using fl_le_double[OF B1 _ _ fin1 xy] by auto
  have "\<bar>s + p\<bar> \<le> of_nat i * B + B"
    using s p(2) unfolding B_def[symmetric] by linarith
  then have sp: "\<bar>s + p\<bar> \<le> of_nat (Suc i) * B"
    by (simp add: distrib_right)
  have M: "of_nat (Suc i) * B = of_int (int (Suc i)) * 2 powr of_int 1000"
    by (simp add: B_def)
  have k: "int (Suc i) < 2 ^ 53"
    using i by simp
  have "real (Suc i) \<le> 2 ^ 20"
    using i by (simp flip: of_nat_le_iff)
  then have "real (Suc i) \<le> 2 powr of_int 20"
    by (simp add: powr_numeral)
  then have "of_nat (Suc i) * B \<le> 2 powr of_int 20 * B"
    using Bpos by (intro mult_right_mono) simp_all
  also have "\<dots> = 2 powr of_int (20 + 1000)"
    unfolding B_def by (simp only: two_powr_sum)
  also have "\<dots> < 2 powr of_int 1024"
    by (simp only: two_powr_less)
  finally have fin: "of_nat (Suc i) * B < 2 powr of_int 1024" .
  obtain s' where s': "fl (s + p) = Num s'" "\<bar>s'\<bar> \<le> of_nat (Suc i) * B"
      "0 \<le> s + p \<longrightarrow> 0 \<le> s'"
    using fl_le_double[OF M k _ fin sp] by auto
  show ?thesis
    using p s' unfolding B_def by blast
qed

text \<open>
  The same step for a sum of squares, with the bound from below: once the sum has reached
  \<open>2 ^ -1000\<close> it stays there, and a non-zero entry of magnitude at least \<open>2 ^ -500\<close>
  brings it there.
\<close>

lemma sq_step:
  assumes x: "x = 0 \<or> (2 powr of_int (- 500) \<le> \<bar>x\<bar> \<and> \<bar>x\<bar> \<le> 2 powr of_int 500)"
    and s0: "0 \<le> s" and s: "s \<le> of_nat i * 2 powr of_int 1000" and i: "i < 2 ^ 20"
    and sl: "s = 0 \<or> 2 powr of_int (- 1000) \<le> s"
  shows "\<exists>s'. js_add (Num s) (js_mul (Num x) (Num x)) = Num s' \<and> 0 \<le> s' \<and>
           s' \<le> of_nat (Suc i) * 2 powr of_int 1000 \<and>
           (s' = 0 \<or> 2 powr of_int (- 1000) \<le> s') \<and> (s' = 0 \<longrightarrow> s = 0 \<and> x = 0)"
proof -
  define L where "L = (2::real) powr of_int (- 1000)"
  have Lpos: "0 < L"
    by (simp add: L_def)
  have xb: "\<bar>x\<bar> \<le> 2 powr of_int 500"
    using x by auto
  have sb: "\<bar>s\<bar> \<le> of_nat i * 2 powr of_int 1000"
    using s0 s by simp
  obtain p s' where p: "fl (x * x) = Num p" "0 \<le> x * x \<longrightarrow> 0 \<le> p"
    and s': "fl (s + p) = Num s'" "\<bar>s'\<bar> \<le> of_nat (Suc i) * 2 powr of_int 1000"
      "0 \<le> s + p \<longrightarrow> 0 \<le> s'"
    using acc_step[OF xb xb sb i] by blast
  have p0: "0 \<le> p"
    using p(2) by simp
  then have s'0: "0 \<le> s'"
    using s'(3) s0 by simp
  have ge: "L \<le> r \<Longrightarrow> fl r = Num t \<Longrightarrow> L \<le> t" for r t
    using fl_ge_pow2[of "- 1000" r] unfolding L_def by auto
  have pl: "L \<le> p" if "x \<noteq> 0"
  proof -
    have l: "2 powr of_int (- 500) \<le> \<bar>x\<bar>"
      using x that by simp
    have "(2::real) powr of_int (- 500) * 2 powr of_int (- 500) \<le> \<bar>x\<bar> * \<bar>x\<bar>"
      using l by (intro mult_mono) simp_all
    then have "(2::real) powr of_int (- 500 + - 500) \<le> \<bar>x\<bar> * \<bar>x\<bar>"
      by (simp only: two_powr_sum)
    then have "L \<le> x * x"
      by (simp add: L_def)
    then show ?thesis
      using p(1) by (rule ge)
  qed
  have px: "p = 0" if "x = 0"
    using p(1) that by simp
  have low: "L \<le> s'" if "L \<le> s + p"
    using that s'(1) by (rule ge)
  have "(s' = 0 \<or> L \<le> s') \<and> (s' = 0 \<longrightarrow> s = 0 \<and> x = 0)"
  proof (cases "x = 0")
    case True
    show ?thesis
    proof (cases "s = 0")
      case True
      then have "s' = 0"
        using s'(1) px[OF \<open>x = 0\<close>] by simp
      then show ?thesis
        using True \<open>x = 0\<close> by simp
    next
      case False
      then have "L \<le> s + p"
        using sl px[OF True] by (simp add: L_def)
      then have "L \<le> s'"
        by (rule low)
      then show ?thesis
        using Lpos by simp
    qed
  next
    case False
    then have "L \<le> s + p"
      using pl s0 by fastforce
    then have "L \<le> s'"
      by (rule low)
    then show ?thesis
      using Lpos by simp
  qed
  moreover have "js_add (Num s) (js_mul (Num x) (Num x)) = Num s'"
    by (simp add: p(1) s'(1))
  moreover have "s' \<le> of_nat (Suc i) * 2 powr of_int 1000"
    using s'(2) by linarith
  ultimately show ?thesis
    using s'0 unfolding L_def by blast
qed


text \<open>
  The sum of squares of a vector whose entries are zero or of magnitude between
  \<open>2 ^ -500\<close> and \<open>2 ^ 500\<close>, at most \<open>2 ^ 20\<close> of them: it is zero only when every
  entry is, and otherwise it lies between \<open>2 ^ -1000\<close> and \<open>2 ^ 1020\<close>.
\<close>

lemma normA_loop_bounds:
  assumes a: "\<forall>j<length a. \<exists>r. at_index a j = Num r \<and>
                (r = 0 \<or> (2 powr of_int (- 500) \<le> \<bar>r\<bar> \<and> \<bar>r\<bar> \<le> 2 powr of_int 500))"
    and n: "length a \<le> 2 ^ 20" and i: "i \<le> length a"
    and na: "0 \<le> na" "na \<le> of_nat i * 2 powr of_int 1000"
      "na = 0 \<or> 2 powr of_int (- 1000) \<le> na"
  shows "\<exists>s. fst (snd (cosine_loop a b i (d, Num na, nb))) = Num s \<and> 0 \<le> s \<and>
           s \<le> of_nat (length a) * 2 powr of_int 1000 \<and>
           (s = 0 \<or> 2 powr of_int (- 1000) \<le> s) \<and>
           (s = 0 \<longrightarrow> na = 0 \<and> (\<forall>j. i \<le> j \<and> j < length a \<longrightarrow> at_index a j = Num 0))"
  using i na
proof (induction k \<equiv> "length a - i" arbitrary: i d na nb)
  case 0
  then have eq: "i = length a" and nlt: "\<not> i < length a"
    by simp_all
  have "cosine_loop a b i (d, Num na, nb) = (d, Num na, nb)"
    using nlt by (simp add: cosine_loop.simps[of a b i])
  then have r: "fst (snd (cosine_loop a b i (d, Num na, nb))) = Num na"
    by (simp only: fst_conv snd_conv)
  have v: "\<forall>j. i \<le> j \<and> j < length a \<longrightarrow> at_index a j = Num 0"
    using eq by auto
  have "na \<le> of_nat (length a) * 2 powr of_int 1000"
    using "0.prems"(3) by (simp only: eq)
  then show ?case
    using r v "0.prems"(2,4) by blast
next
  case (Suc k)
  then have lt: "i < length a"
    by simp
  then have i: "i < 2 ^ 20"
    using n by simp
  obtain x where x: "at_index a i = Num x"
      "x = 0 \<or> (2 powr of_int (- 500) \<le> \<bar>x\<bar> \<and> \<bar>x\<bar> \<le> 2 powr of_int 500)"
    using a lt by blast
  obtain s1 where s1: "js_add (Num na) (js_mul (Num x) (Num x)) = Num s1" "0 \<le> s1"
      "s1 \<le> of_nat (Suc i) * 2 powr of_int 1000" "s1 = 0 \<or> 2 powr of_int (- 1000) \<le> s1"
      "s1 = 0 \<longrightarrow> na = 0 \<and> x = 0"
    using sq_step[OF x(2) Suc.prems(2,3) i Suc.prems(4)] by blast
  have k: "k = length a - Suc i" and le: "Suc i \<le> length a"
    using Suc.hyps(2) lt by simp_all
  have step: "cosine_loop a b i (d, Num na, nb) =
      cosine_loop a b (Suc i)
        (js_add d (js_mul (Num x) (at_index b i)), Num s1,
         js_add nb (js_mul (at_index b i) (at_index b i)))"
    using lt s1(1) by (simp add: cosine_loop.simps[of a b i] x(1))
  obtain s where s: "fst (snd (cosine_loop a b i (d, Num na, nb))) = Num s" "0 \<le> s"
      "s \<le> of_nat (length a) * 2 powr of_int 1000" "s = 0 \<or> 2 powr of_int (- 1000) \<le> s"
      "s = 0 \<longrightarrow> s1 = 0 \<and> (\<forall>j. Suc i \<le> j \<and> j < length a \<longrightarrow> at_index a j = Num 0)"
    using Suc.hyps(1)[OF k le s1(2,3,4)] by (simp only: step) blast
  have "na = 0 \<and> (\<forall>j. i \<le> j \<and> j < length a \<longrightarrow> at_index a j = Num 0)" if "s = 0"
  proof -
    have z: "s1 = 0" "\<forall>j. Suc i \<le> j \<and> j < length a \<longrightarrow> at_index a j = Num 0"
      using s(5) that by simp_all
    then have "na = 0" "at_index a i = Num 0"
      using s1(5) x(1) by simp_all
    moreover have "j = i \<or> Suc i \<le> j" if "i \<le> j" for j
      using that by linarith
    ultimately show ?thesis
      using z(2) by blast
  qed
  then show ?case
    using s(1-4) by blast
qed


lemma moderate_number_iff:
  "moderate_number v =
     (\<exists>r. v = Num r \<and> (r = 0 \<or> (2 powr of_int (- 500) \<le> \<bar>r\<bar> \<and> \<bar>r\<bar> \<le> 2 powr of_int 500)))"
  by (cases v) (simp_all add: powr_minus powr_numeral inverse_eq_divide)




text \<open>
  The sum of squares of at most \<open>2 ^ 20\<close> moderate entries, not all zero, is in the range
  where each rounding has a relative error of at most \<open>2 ^ -53\<close>.
\<close>

lemma normA_of_moderate:
  assumes m: "\<forall>x\<in>set v. moderate_number x" and n: "length v \<le> 2 ^ 20"
    and nz: "\<not> zero_vector v"
  shows "\<exists>s. normA_of v = Num s \<and> 1 / 2 ^ 1021 \<le> s \<and> s \<le> 2 ^ 1022"
proof -
  have a: "\<forall>j<length v. \<exists>r. at_index v j = Num r \<and>
      (r = 0 \<or> (2 powr of_int (- 500) \<le> \<bar>r\<bar> \<and> \<bar>r\<bar> \<le> 2 powr of_int 500))"
    using m by (auto simp: at_index_def moderate_number_iff)
  have z: "(0::real) = 0 \<or> 2 powr of_int (- 1000) \<le> (0::real)" and le: "0 \<le> length v"
    by simp_all
  obtain s where s: "normA_of v = Num s"
      "s \<le> of_nat (length v) * 2 powr of_int 1000" "s = 0 \<or> 2 powr of_int (- 1000) \<le> s"
      "s = 0 \<longrightarrow> (\<forall>j. 0 \<le> j \<and> j < length v \<longrightarrow> at_index v j = Num 0)"
    using normA_loop_bounds[OF a n le order_refl _ z, of "[]" "Num 0" "Num 0"]
    unfolding normA_of_def by auto
  have "s \<noteq> 0"
  proof
    assume "s = 0"
    then have "\<forall>j<length v. v ! j = Num 0"
      using s(4) by (simp add: at_index_def)
    then have "\<forall>x\<in>set v. x = Num 0"
      by (metis in_set_conv_nth)
    then show False
      using nz by (simp add: zero_vector_iff)
  qed
  then have low: "2 powr of_int (- 1000) \<le> s"
    using s(3) by simp
  have "(2::real) powr of_int (- 1021) \<le> 2 powr of_int (- 1000)"
    by (simp only: two_powr_le)
  then have "2 powr of_int (- 1021) \<le> s"
    using low by linarith
  then have lo: "1 / 2 ^ 1021 \<le> s"
    by (simp add: powr_minus powr_numeral inverse_eq_divide)
  have "real (length v) \<le> 2 ^ 20"
    using n by (simp flip: of_nat_le_iff)
  then have "real (length v) \<le> 2 powr of_int 20"
    by (simp add: powr_numeral)
  then have "of_nat (length v) * (2::real) powr of_int 1000 \<le> 2 powr of_int 20 * 2 powr of_int 1000"
    by (intro mult_right_mono) simp_all
  also have "\<dots> = 2 powr of_int (20 + 1000)"
    by (simp only: two_powr_sum)
  also have "\<dots> \<le> 2 powr of_int 1022"
    by (simp only: two_powr_le)
  finally have "s \<le> 2 powr of_int 1022"
    using s(2) by linarith
  then have hi: "s \<le> 2 ^ 1022"
    by (simp add: powr_numeral)
  show ?thesis
    using s(1) lo hi by blast
qed

section \<open>Properties of sort and slice\<close>

lemma positive_not_negative: "positive v \<Longrightarrow> \<not> negative v"
  by (cases v) simp_all

lemma consistent_subset:
  "consistent_comparator cmp S \<Longrightarrow> T \<subseteq> S \<Longrightarrow> consistent_comparator cmp T"
  unfolding consistent_comparator_def by (meson subsetD)

lemma consistent_refl:
  "consistent_comparator cmp S \<Longrightarrow> a \<in> S \<Longrightarrow> cf_eq cmp a a"
  unfolding consistent_comparator_def by blast

lemma consistent_sym:
  "consistent_comparator cmp S \<Longrightarrow> a \<in> S \<Longrightarrow> b \<in> S \<Longrightarrow> cf_eq cmp a b \<Longrightarrow> cf_eq cmp b a"
  unfolding consistent_comparator_def by blast

lemma consistent_trans_eq:
  "consistent_comparator cmp S \<Longrightarrow> a \<in> S \<Longrightarrow> b \<in> S \<Longrightarrow> c \<in> S \<Longrightarrow>
   cf_eq cmp a b \<Longrightarrow> cf_eq cmp b c \<Longrightarrow> cf_eq cmp a c"
  unfolding consistent_comparator_def by blast

lemma consistent_trans_neg:
  "consistent_comparator cmp S \<Longrightarrow> a \<in> S \<Longrightarrow> b \<in> S \<Longrightarrow> c \<in> S \<Longrightarrow>
   negative (cmp a b) \<Longrightarrow> negative (cmp b c) \<Longrightarrow> negative (cmp a c)"
  unfolding consistent_comparator_def by blast

lemma consistent_trans_pos:
  "consistent_comparator cmp S \<Longrightarrow> a \<in> S \<Longrightarrow> b \<in> S \<Longrightarrow> c \<in> S \<Longrightarrow>
   positive (cmp a b) \<Longrightarrow> positive (cmp b c) \<Longrightarrow> positive (cmp a c)"
  unfolding consistent_comparator_def by blast

text \<open>
  Under a consistent comparator "after" and "before" mirror each other, and "not after"
  is transitive.
\<close>

lemma consistent_flip_pos:
  assumes C: "consistent_comparator cmp S" and a: "a \<in> S" and b: "b \<in> S"
    and gt: "positive (cmp a b)"
  shows "negative (cmp b a)"
proof (rule ccontr)
  assume nneg: "\<not> negative (cmp b a)"
  show False
  proof (cases "positive (cmp b a)")
    case True
    then have "positive (cmp a a)"
      using consistent_trans_pos[OF C a b a gt] by simp
    then show False
      using consistent_refl[OF C a] by (simp add: cf_eq_def)
  next
    case False
    then have "cf_eq cmp b a"
      using nneg by (simp add: cf_eq_def)
    then have "cf_eq cmp a b"
      by (rule consistent_sym[OF C b a])
    then show False
      using gt by (simp add: cf_eq_def)
  qed
qed

lemma consistent_flip_neg:
  assumes C: "consistent_comparator cmp S" and a: "a \<in> S" and b: "b \<in> S"
    and lt: "negative (cmp a b)"
  shows "positive (cmp b a)"
proof (rule ccontr)
  assume npos: "\<not> positive (cmp b a)"
  show False
  proof (cases "negative (cmp b a)")
    case True
    then have "negative (cmp a a)"
      using consistent_trans_neg[OF C a b a lt] by simp
    then show False
      using consistent_refl[OF C a] by (simp add: cf_eq_def)
  next
    case False
    then have "cf_eq cmp b a"
      using npos by (simp add: cf_eq_def)
    then have "cf_eq cmp a b"
      by (rule consistent_sym[OF C b a])
    then show False
      using lt by (simp add: cf_eq_def)
  qed
qed

lemma consistent_not_after_trans:
  assumes C: "consistent_comparator cmp S" and a: "a \<in> S" and b: "b \<in> S" and c: "c \<in> S"
    and ab: "\<not> positive (cmp a b)" and bc: "\<not> positive (cmp b c)"
  shows "\<not> positive (cmp a c)"
proof
  assume ac: "positive (cmp a c)"
  then have ca: "negative (cmp c a)"
    by (rule consistent_flip_pos[OF C a c])
  show False
  proof (cases "negative (cmp a b)")
    case lt_ab: True
    show False
    proof (cases "negative (cmp b c)")
      case True
      then have "negative (cmp a c)"
        by (rule consistent_trans_neg[OF C a b c lt_ab])
      then show False
        using ac positive_not_negative by blast
    next
      case False
      then have "cf_eq cmp b c"
        using bc by (simp add: cf_eq_def)
      then have "cf_eq cmp c b"
        by (rule consistent_sym[OF C b c])
      moreover have "negative (cmp c b)"
        by (rule consistent_trans_neg[OF C c a b ca lt_ab])
      ultimately show False
        by (simp add: cf_eq_def)
    qed
  next
    case False
    then have eq_ab: "cf_eq cmp a b"
      using ab by (simp add: cf_eq_def)
    show False
    proof (cases "negative (cmp b c)")
      case True
      then have "negative (cmp b a)"
        using consistent_trans_neg[OF C b c a] ca by blast
      moreover have "cf_eq cmp b a"
        by (rule consistent_sym[OF C a b eq_ab])
      ultimately show False
        by (simp add: cf_eq_def)
    next
      case False
      then have "cf_eq cmp b c"
        using bc by (simp add: cf_eq_def)
      then have "cf_eq cmp a c"
        by (rule consistent_trans_eq[OF C a b c eq_ab])
      then show False
        using ac by (simp add: cf_eq_def)
    qed
  qed
qed

text \<open>The insertion sort keeps the promise of ECMA-262.\<close>

lemma mset_insert_by: "mset (insert_by cmp x ys) = add_mset x (mset ys)"
  by (induction ys) simp_all

lemma mset_js_sort: "mset (js_sort cmp xs) = mset xs"
  by (induction xs) (simp_all add: js_sort_def mset_insert_by)

lemma set_insert_by: "set (insert_by cmp x ys) = insert x (set ys)"
  using mset_insert_by[of cmp x ys] by (metis set_mset_add_mset_insert set_mset_mset)

lemma set_js_sort: "set (js_sort cmp xs) = set xs"
  using mset_js_sort[of cmp xs] by (metis set_mset_mset)

lemma sorted_insert_by:
  assumes C: "consistent_comparator cmp S" and x: "x \<in> S" and ys: "set ys \<subseteq> S"
    and srt: "sorted_wrt (\<lambda>a b. \<not> positive (cmp a b)) ys"
  shows "sorted_wrt (\<lambda>a b. \<not> positive (cmp a b)) (insert_by cmp x ys)"
  using ys srt
proof (induction ys)
  case Nil
  then show ?case
    by simp
next
  case (Cons y ys)
  have y: "y \<in> S" and sub: "set ys \<subseteq> S"
    using Cons.prems(1) by simp_all
  show ?case
  proof (cases "positive (cmp x y)")
    case True
    have "negative (cmp y x)"
      by (rule consistent_flip_pos[OF C x y True])
    then have "\<not> positive (cmp y x)"
      using positive_not_negative by blast
    moreover have "sorted_wrt (\<lambda>a b. \<not> positive (cmp a b)) (insert_by cmp x ys)"
      using Cons.IH[OF sub] Cons.prems(2) by simp
    ultimately show ?thesis
      using True Cons.prems(2) by (simp add: set_insert_by)
  next
    case False
    have "\<forall>z\<in>set ys. \<not> positive (cmp x z)"
    proof
      fix z
      assume z: "z \<in> set ys"
      then have "\<not> positive (cmp y z)"
        using Cons.prems(2) by simp
      then show "\<not> positive (cmp x z)"
        using consistent_not_after_trans[OF C x y _ False] z sub by blast
    qed
    then show ?thesis
      using False Cons.prems(2) by simp
  qed
qed

lemma filter_insert_by:
  assumes C: "consistent_comparator cmp S" and x: "x \<in> S" and k: "k \<in> S"
    and ys: "set ys \<subseteq> S"
  shows "filter (cf_eq cmp k) (insert_by cmp x ys) =
         (if cf_eq cmp k x then x # filter (cf_eq cmp k) ys else filter (cf_eq cmp k) ys)"
  using ys
proof (induction ys)
  case Nil
  then show ?case
    by simp
next
  case (Cons y ys)
  have y: "y \<in> S" and sub: "set ys \<subseteq> S"
    using Cons.prems by simp_all
  show ?case
  proof (cases "positive (cmp x y)")
    case True
    have "\<not> cf_eq cmp k y" if kx: "cf_eq cmp k x"
    proof
      assume ky: "cf_eq cmp k y"
      have "cf_eq cmp x k"
        by (rule consistent_sym[OF C k x kx])
      then have "cf_eq cmp x y"
        by (rule consistent_trans_eq[OF C x k y _ ky])
      then show False
        using True by (simp add: cf_eq_def)
    qed
    then show ?thesis
      using True Cons.IH[OF sub] by simp
  next
    case False
    then show ?thesis
      by simp
  qed
qed

lemma js_sort_consistent:
  assumes C: "consistent_comparator cmp S" and xs: "set xs \<subseteq> S"
  shows "sorted_wrt (\<lambda>a b. \<not> positive (cmp a b)) (js_sort cmp xs) \<and>
         (\<forall>k\<in>S. filter (cf_eq cmp k) (js_sort cmp xs) = filter (cf_eq cmp k) xs)"
  using xs
proof (induction xs)
  case Nil
  then show ?case
    by (simp add: js_sort_def)
next
  case (Cons x xs)
  have x: "x \<in> S" and sub: "set xs \<subseteq> S"
    using Cons.prems by simp_all
  have rest: "set (js_sort cmp xs) \<subseteq> S"
    using sub by (simp add: set_js_sort)
  have unfold: "js_sort cmp (x # xs) = insert_by cmp x (js_sort cmp xs)"
    by (simp add: js_sort_def)
  have "sorted_wrt (\<lambda>a b. \<not> positive (cmp a b)) (insert_by cmp x (js_sort cmp xs))"
    using sorted_insert_by[OF C x rest] Cons.IH[OF sub] by blast
  moreover have "\<forall>k\<in>S. filter (cf_eq cmp k) (insert_by cmp x (js_sort cmp xs)) =
      filter (cf_eq cmp k) (x # xs)"
    using filter_insert_by[OF C x _ rest] Cons.IH[OF sub] by simp
  ultimately show ?case
    by (simp only: unfold)
qed

lemma ecma_sort_js_sort: "ecma_sort js_sort"
  unfolding ecma_sort_def
proof (intro allI conjI impI)
  fix cmp :: "'a \<Rightarrow> 'a \<Rightarrow> jsnum" and xs :: "'a list"
  show "mset (js_sort cmp xs) = mset xs"
    by (rule mset_js_sort)
next
  fix cmp :: "'a \<Rightarrow> 'a \<Rightarrow> jsnum" and xs :: "'a list"
  assume C: "consistent_comparator cmp (set xs)"
  have both: "sorted_wrt (\<lambda>a b. \<not> positive (cmp a b)) (js_sort cmp xs) \<and>
         (\<forall>k\<in>set xs. filter (cf_eq cmp k) (js_sort cmp xs) = filter (cf_eq cmp k) xs)"
    by (rule js_sort_consistent[OF C]) simp
  show "sorted_wrt (\<lambda>a b. \<not> negative (cmp b a)) (js_sort cmp xs)"
  proof (rule sorted_wrt_mono_rel[of "js_sort cmp xs" "\<lambda>a b. \<not> positive (cmp a b)"])
    fix a b
    assume "a \<in> set (js_sort cmp xs)" "b \<in> set (js_sort cmp xs)" "\<not> positive (cmp a b)"
    then show "\<not> negative (cmp b a)"
      using consistent_flip_neg[OF C, of b a] by (auto simp: set_js_sort)
  next
    show "sorted_wrt (\<lambda>a b. \<not> positive (cmp a b)) (js_sort cmp xs)"
      using both by blast
  qed
  show "\<forall>k\<in>set xs. filter (cf_eq cmp k) (js_sort cmp xs) = filter (cf_eq cmp k) xs"
    using both by blast
qed

lemma ecma_sort_mset: "ecma_sort srt \<Longrightarrow> mset (srt cmp xs) = mset xs"
  unfolding ecma_sort_def by blast

lemma ecma_sort_set: "ecma_sort srt \<Longrightarrow> set (srt cmp xs) = set xs"
  using ecma_sort_mset[of srt cmp xs] by (metis set_mset_mset)

lemma ecma_sort_length: "ecma_sort srt \<Longrightarrow> length (srt cmp xs) = length xs"
  using ecma_sort_mset[of srt cmp xs] by (metis size_mset)

lemma js_slice0_take: "\<exists>n. js_slice0 k xs = take n xs"
  by (auto simp: js_slice0_def Let_def)

lemma length_js_slice0: "0 \<le> k \<Longrightarrow> int (length (js_slice0 k xs)) \<le> k"
  by (simp add: js_slice0_def Let_def)

lemma js_slice0_all: "int (length xs) \<le> k \<Longrightarrow> js_slice0 k xs = xs"
  by (simp add: js_slice0_def Let_def)

section \<open>Properties of the ranking\<close>

text \<open>
  On scores that are not NaN the comparator \<^verbatim>\<open>b.score - a.score\<close> has the sign of the
  comparison of the two scores: the difference of two distinct doubles does not round to
  zero.
\<close>

lemma positive_score_compare:
  assumes "snd x \<noteq> NaN" "snd y \<noteq> NaN" "on_grid (snd x)" "on_grid (snd y)"
  shows "positive (score_compare x y) = (descending_key (snd y) < descending_key (snd x))"
proof (cases "snd x")
  case a: (Num a)
  show ?thesis
  proof (cases "snd y")
    case b: (Num b)
    have "positive (fl (b + - a)) = (a < b)"
    proof (cases "a < b")
      case True
      then have "2 powr of_int (- 1074) \<le> b + - a"
        using on_grid_diff[of a b] assms(3,4) a b by simp
      then show ?thesis
        using True fl_positive by blast
    next
      case False
      then have "b + - a \<le> 0"
        by simp
      then show ?thesis
        using False fl_nonpos by blast
    qed
    then show ?thesis
      by (simp add: score_compare_def js_sub_def a b)
  qed (use assms in \<open>simp_all add: score_compare_def js_sub_def a\<close>)
next
  case PInf
  then show ?thesis
    using assms by (cases "snd y") (simp_all add: score_compare_def js_sub_def)
next
  case NInf
  then show ?thesis
    using assms by (cases "snd y") (simp_all add: score_compare_def js_sub_def)
next
  case NaN
  then show ?thesis
    using assms by simp
qed

lemma negative_score_compare:
  assumes "snd x \<noteq> NaN" "snd y \<noteq> NaN" "on_grid (snd x)" "on_grid (snd y)"
  shows "negative (score_compare x y) = (descending_key (snd x) < descending_key (snd y))"
proof (cases "snd x")
  case a: (Num a)
  show ?thesis
  proof (cases "snd y")
    case b: (Num b)
    have "negative (fl (b + - a)) = (b < a)"
    proof (cases "b < a")
      case True
      then have "2 powr of_int (- 1074) \<le> a - b"
        using on_grid_diff[of b a] assms(3,4) a b by simp
      then have "b + - a \<le> - (2 powr of_int (- 1074))"
        by simp
      then show ?thesis
        using True fl_negative by blast
    next
      case False
      then have "0 \<le> b + - a"
        by simp
      then show ?thesis
        using False fl_nonneg_not_negative by blast
    qed
    then show ?thesis
      by (simp add: score_compare_def js_sub_def a b)
  qed (use assms in \<open>simp_all add: score_compare_def js_sub_def a\<close>)
next
  case PInf
  then show ?thesis
    using assms by (cases "snd y") (simp_all add: score_compare_def js_sub_def)
next
  case NInf
  then show ?thesis
    using assms by (cases "snd y") (simp_all add: score_compare_def js_sub_def)
next
  case NaN
  then show ?thesis
    using assms by simp
qed

lemma cf_eq_score_compare:
  assumes "snd x \<noteq> NaN" "snd y \<noteq> NaN" "on_grid (snd x)" "on_grid (snd y)"
  shows "cf_eq score_compare x y = (descending_key (snd x) = descending_key (snd y))"
  unfolding cf_eq_def positive_score_compare[OF assms] negative_score_compare[OF assms]
  by auto

text \<open>So without a NaN score the comparator is consistent.\<close>

lemma consistent_score_compare:
  assumes "\<forall>p\<in>S. snd p \<noteq> NaN \<and> on_grid (snd p)"
  shows "consistent_comparator score_compare S"
  unfolding consistent_comparator_def
proof (intro conjI ballI impI)
  fix a assume "a \<in> S"
  then show "cf_eq score_compare a a"
    using assms by (simp add: cf_eq_score_compare)
next
  fix a b assume "a \<in> S" "b \<in> S" "cf_eq score_compare a b"
  then show "cf_eq score_compare b a"
    using assms by (simp add: cf_eq_score_compare)
next
  fix a b c
  assume "a \<in> S" "b \<in> S" "c \<in> S" "cf_eq score_compare a b \<and> cf_eq score_compare b c"
  then show "cf_eq score_compare a c"
    using assms by (simp add: cf_eq_score_compare)
next
  fix a b c
  assume "a \<in> S" "b \<in> S" "c \<in> S"
    "negative (score_compare a b) \<and> negative (score_compare b c)"
  then show "negative (score_compare a c)"
    using assms by (simp add: negative_score_compare) (meson order_less_trans)
next
  fix a b c
  assume "a \<in> S" "b \<in> S" "c \<in> S"
    "positive (score_compare a b) \<and> positive (score_compare b c)"
  then show "positive (score_compare a c)"
    using assms by (simp add: positive_score_compare) (meson order_less_trans)
qed

text \<open>
  Then every sort function that keeps the promise of ECMA-262 returns one and the same
  array: the stable sort by descending score.
\<close>

lemma ecma_sort_scores:
  assumes E: "ecma_sort srt" and ok: "\<forall>p\<in>set ps. snd p \<noteq> NaN \<and> on_grid (snd p)"
  shows "srt score_compare ps = sort_key (\<lambda>p. descending_key (snd p)) ps"
proof -
  let ?ys = "srt score_compare ps"
  let ?key = "\<lambda>p. descending_key (snd p)"
  have C: "consistent_comparator score_compare (set ps)"
    by (rule consistent_score_compare[OF ok])
  have ms: "mset ?ys = mset ps"
    by (rule ecma_sort_mset[OF E])
  have st: "set ?ys = set ps"
    by (rule ecma_sort_set[OF E])
  have srt: "sorted_wrt (\<lambda>a b. \<not> negative (score_compare b a)) ?ys"
    and stable: "\<forall>k\<in>set ps. filter (cf_eq score_compare k) ?ys = filter (cf_eq score_compare k) ps"
    using E C unfolding ecma_sort_def by blast+
  have "sorted_wrt (\<lambda>a b. ?key a \<le> ?key b) ?ys"
  proof (rule sorted_wrt_mono_rel[OF _ srt])
    fix a b
    assume "a \<in> set ?ys" "b \<in> set ?ys" "\<not> negative (score_compare b a)"
    then show "?key a \<le> ?key b"
      using ok st by (simp add: negative_score_compare)
  qed
  then have sorted: "sorted (map ?key ?ys)"
    by (simp add: sorted_map)
  have filt: "filter (\<lambda>x. ?key k = ?key x) ?ys = filter (\<lambda>x. ?key k = ?key x) ps"
    if k: "k \<in> set ?ys" for k
  proof -
    have kk: "k \<in> set ps"
      using k st by simp
    have "filter (\<lambda>x. ?key k = ?key x) ?ys = filter (cf_eq score_compare k) ?ys"
      using ok st kk by (intro filter_cong refl) (simp add: cf_eq_score_compare)
    also have "\<dots> = filter (cf_eq score_compare k) ps"
      using stable kk by blast
    also have "\<dots> = filter (\<lambda>x. ?key k = ?key x) ps"
      using ok kk by (intro filter_cong refl) (simp add: cf_eq_score_compare)
    finally show ?thesis .
  qed
  show ?thesis
    using properties_for_sort_key[OF ms filt sorted] by simp
qed

lemma rank_chunks_scoredChunks:
  "rank_chunks srt q k cs = map fst (js_slice0 k (srt score_compare (scoredChunks q cs)))"
  by (simp add: rank_chunks_def scoredChunks_def)

lemma map_fst_scoredChunks: "map fst (scoredChunks q cs) = cs"
  by (simp add: scoredChunks_def comp_def)

lemma snd_scoredChunks: "p \<in> set (scoredChunks q cs) \<Longrightarrow> snd p = score q (fst p)"
  by (auto simp: scoredChunks_def score_def)

lemma mset_sorted_scored:
  assumes "ecma_sort srt"
  shows "mset (map fst (srt score_compare (scoredChunks q cs))) = mset cs"
proof -
  have "mset (map fst (srt score_compare (scoredChunks q cs))) =
        image_mset fst (mset (srt score_compare (scoredChunks q cs)))"
    by simp
  also have "\<dots> = image_mset fst (mset (scoredChunks q cs))"
    by (simp only: ecma_sort_mset[OF assms])
  also have "\<dots> = mset (map fst (scoredChunks q cs))"
    by simp
  finally show ?thesis
    by (simp only: map_fst_scoredChunks)
qed

text \<open>The result is a prefix of the sorted array; the rest of it is what is left out.\<close>

lemma rank_chunks_split:
  assumes "ecma_sort srt"
  shows "\<exists>n. rank_chunks srt q k cs = map fst (take n (srt score_compare (scoredChunks q cs))) \<and>
       mset (map fst (take n (srt score_compare (scoredChunks q cs))) @
             map fst (drop n (srt score_compare (scoredChunks q cs)))) = mset cs"
proof -
  let ?S = "srt score_compare (scoredChunks q cs)"
  obtain n where n: "js_slice0 k ?S = take n ?S"
    using js_slice0_take by blast
  have "map fst (take n ?S) @ map fst (drop n ?S) = map fst ?S"
    by (metis append_take_drop_id map_append)
  then show ?thesis
    using n mset_sorted_scored[OF assms, of q cs]
    by (auto simp: rank_chunks_scoredChunks simp del: mset_map mset_append)
qed

lemma mset_rank_chunks_subset:
  assumes "ecma_sort srt"
  shows "mset (rank_chunks srt q k cs) \<subseteq># mset cs"
proof -
  let ?S = "srt score_compare (scoredChunks q cs)"
  obtain n where "rank_chunks srt q k cs = map fst (take n ?S)"
     and "mset (map fst (take n ?S) @ map fst (drop n ?S)) = mset cs"
    using rank_chunks_split[OF assms] by blast
  then show ?thesis
    by (metis mset_append mset_subset_eq_add_left)
qed

lemma set_rank_chunks_subset:
  assumes "ecma_sort srt"
  shows "set (rank_chunks srt q k cs) \<subseteq> set cs"
  using mset_rank_chunks_subset[OF assms, of q k cs] by (metis set_mset_mono set_mset_mset)

lemma length_rank_chunks_le: "0 \<le> k \<Longrightarrow> int (length (rank_chunks srt q k cs)) \<le> k"
  by (simp add: rank_chunks_scoredChunks length_js_slice0)

lemma length_rank_chunks:
  assumes "ecma_sort srt"
  shows "length (rank_chunks srt q k cs) = length (js_slice0 k cs)"
  by (simp add: rank_chunks_scoredChunks js_slice0_def Let_def ecma_sort_length[OF assms]
      scoredChunks_def)

lemma rank_chunks_all:
  assumes "ecma_sort srt" "int (length cs) \<le> k"
  shows "mset (rank_chunks srt q k cs) = mset cs"
proof -
  have "length (srt score_compare (scoredChunks q cs)) = length cs"
    by (simp add: ecma_sort_length[OF assms(1)] scoredChunks_def)
  then have "js_slice0 k (srt score_compare (scoredChunks q cs)) =
             srt score_compare (scoredChunks q cs)"
    using assms(2) by (simp add: js_slice0_all)
  then show ?thesis
    by (simp only: rank_chunks_scoredChunks mset_sorted_scored[OF assms(1)])
qed

lemma scored_ok:
  assumes "\<forall>c\<in>set cs. score q c \<noteq> NaN"
  shows "\<forall>p\<in>set (scoredChunks q cs). snd p \<noteq> NaN \<and> on_grid (snd p)"
  using assms by (auto simp: scoredChunks_def score_def on_grid_cosineSimilarity)

lemma js_ge_descending_key:
  assumes "a \<noteq> NaN" "b \<noteq> NaN"
  shows "js_ge a b = (descending_key a \<le> descending_key b)"
  using assms by (cases a; cases b) simp_all


lemma rank_chunks_descending:
  assumes E: "ecma_sort srt" and ok: "\<forall>c\<in>set cs. score q c \<noteq> NaN"
  shows "\<exists>omitted. mset (rank_chunks srt q k cs @ omitted) = mset cs \<and>
           sorted_wrt (\<lambda>a b. js_ge (score q a) (score q b)) (rank_chunks srt q k cs @ omitted)"
proof -
  let ?S = "srt score_compare (scoredChunks q cs)"
  let ?key = "\<lambda>p. descending_key (snd p)"
  obtain n where n: "rank_chunks srt q k cs = map fst (take n ?S)"
     and ms: "mset (map fst (take n ?S) @ map fst (drop n ?S)) = mset cs"
    using rank_chunks_split[OF E] by blast
  have all: "rank_chunks srt q k cs @ map fst (drop n ?S) = map fst ?S"
    using n by (metis append_take_drop_id map_append)
  have S: "?S = sort_key ?key (scoredChunks q cs)"
    by (rule ecma_sort_scores[OF E scored_ok[OF ok]])
  have st: "set ?S = set (scoredChunks q cs)"
    by (rule ecma_sort_set[OF E])
  have "sorted (map ?key ?S)"
    by (simp only: S sorted_sort_key)
  then have "sorted_wrt (\<lambda>p p'. ?key p \<le> ?key p') ?S"
    by (simp add: sorted_map)
  then have "sorted_wrt (\<lambda>p p'. js_ge (score q (fst p)) (score q (fst p'))) ?S"
  proof (rule sorted_wrt_mono_rel[rotated])
    fix p p'
    assume p: "p \<in> set ?S" "p' \<in> set ?S" and le: "?key p \<le> ?key p'"
    have in1: "p \<in> set (scoredChunks q cs)" and in2: "p' \<in> set (scoredChunks q cs)"
      using p st by simp_all
    have "snd p \<noteq> NaN" "snd p' \<noteq> NaN"
      using scored_ok[OF ok] in1 in2 by simp_all
    then show "js_ge (score q (fst p)) (score q (fst p'))"
      using le snd_scoredChunks[OF in1] snd_scoredChunks[OF in2]
      by (simp add: js_ge_descending_key)
  qed
  then have "sorted_wrt (\<lambda>a b. js_ge (score q a) (score q b)) (map fst ?S)"
    by (simp add: sorted_wrt_map)
  then show ?thesis
    using all ms n by (intro exI[of _ "map fst (drop n ?S)"]) simp
qed

section \<open>The similarity of a vector with itself\<close>

text \<open>
  With \<^verbatim>\<open>vecB = vecA\<close> the three accumulators go through the same operations, so the
  dot product and both norms are one and the same sum of squares.
\<close>

lemma self_loop:
  assumes "\<forall>j. at_index b j = at_index a j"
  shows "\<exists>t. cosine_loop a b i (s, s, s) = (t, t, t)"
  using assms
proof (induction a b i "(s, s, s)" arbitrary: s rule: cosine_loop.induct)
  case (1 vecA vecB i)
  show ?case
  proof (cases "i < length vecA")
    case True
    have "at_index vecB i = at_index vecA i"
      using 1(2) by simp
    then show ?thesis
      using True 1(1)[OF True] 1(2) by (simp add: cosine_loop.simps[of vecA vecB i])
  next
    case False
    then show ?thesis
      by (simp add: cosine_loop.simps[of vecA vecB i])
  qed
qed

lemma cosineSimilarity_self:
  "cosineSimilarity v v =
     (if normA_of v = Num 0 then Num 0
      else js_div (normA_of v) (js_mul (js_sqrt (normA_of v)) (js_sqrt (normA_of v))))"
proof -
  obtain t where t: "cosine_loop v v 0 (Num 0, Num 0, Num 0) = (t, t, t)"
    using self_loop[of v v 0 "Num 0"] by auto
  have "t = normA_of v"
    using normA_of_loop[of v v] t by simp
  then show ?thesis
    by (simp add: cosineSimilarity_def t)
qed

lemma rel_bounds:
  fixes x y :: real
  assumes "\<bar>y - x\<bar> \<le> \<bar>x\<bar> / 2 ^ 53" "0 < x"
  shows "x * (1 - 1 / 2 ^ 53) \<le> y" "y \<le> x * (1 + 1 / 2 ^ 53)"
proof -
  have "\<bar>y - x\<bar> \<le> x / 2 ^ 53"
    using assms by simp
  then have "x - x / 2 ^ 53 \<le> y \<and> y \<le> x + x / 2 ^ 53"
    by (simp only: abs_le_iff) linarith
  then show "x * (1 - 1 / 2 ^ 53) \<le> y" "y \<le> x * (1 + 1 / 2 ^ 53)"
    by (simp_all add: right_diff_distrib distrib_left)
qed

text \<open>
  Rounding an in-range positive real \<open>x\<close> gives a double within the relative error
  \<open>2 ^ -53\<close>.
\<close>

lemma fl_in_range:
  assumes "1 / 2 ^ 1022 \<le> x" "x \<le> 2 ^ 1023"
  shows "\<exists>y. fl x = Num y \<and> x * (1 - 1 / 2 ^ 53) \<le> y \<and> y \<le> x * (1 + 1 / 2 ^ 53)"
proof -
  have pos: "0 < x"
    using assms(1) by (smt (verit) divide_pos_pos zero_less_power)
  then have "1 / 2 ^ 1022 \<le> \<bar>x\<bar>" "\<bar>x\<bar> \<le> 2 ^ 1023"
    using assms by simp_all
  then obtain y where "fl x = Num y" "\<bar>y - x\<bar> \<le> \<bar>x\<bar> / 2 ^ 53"
    using fl_rel_error by blast
  then show ?thesis
    using rel_bounds[of y x] pos by blast
qed

text \<open>The vector \<open>[1, 1]\<close> against itself: the result is one unit in the last place below 1.\<close>

lemma cosineSimilarity_ones:
  "cosineSimilarity [Num 1, Num 1] [Num 1, Num 1] = Num (1 - 1 / 2 ^ 52)"
proof -
  have n: "normA_of [Num 1, Num 1] = Num 2"
    by (simp add: normA_of_def cosine_loop.simps at_index_def fl_int)
  have s: "js_sqrt (Num 2) = Num (6369051672525773 / 2 ^ 52)"
    by (simp only: js_sqrt.simps fl_sqrt_2) simp
  have p: "js_mul (Num (6369051672525773 / 2 ^ 52)) (Num (6369051672525773 / 2 ^ 52)) =
      Num (4503599627370497 / 2 ^ 51)"
    by (simp only: js_mul.simps fl_sqrt_2_squared)
  have d: "js_div (Num 2) (Num (4503599627370497 / 2 ^ 51)) = Num (1 - 1 / 2 ^ 52)"
    by (simp only: js_div.simps fl_2_over_sqrt_2_squared) simp
  show ?thesis
    by (simp only: cosineSimilarity_self n s p d) simp
qed

text \<open>
  When the sum of squares is a number between \<open>2 ^ -1021\<close> and \<open>2 ^ 1022\<close>, the root,
  the product of the roots and the quotient are each rounded in range, and three
  relative errors of \<open>2 ^ -53\<close> and a fourth leave the result within \<open>2 ^ -50\<close> of 1.
\<close>

lemma self_quotient_bound:
  assumes lo: "1 / 2 ^ 1021 \<le> s" and hi: "s \<le> 2 ^ 1022"
  shows "\<exists>t. js_div (Num s) (js_mul (js_sqrt (Num s)) (js_sqrt (Num s))) = Num t \<and>
             \<bar>t - 1\<bar> \<le> 1 / 2 ^ 50"
proof -
  define u :: real where "u = 1 / 2 ^ 53"
  have u: "0 < u" "u < 1"
    by (simp_all add: u_def)
  have spos: "0 < s"
    using lo by (smt (verit) divide_pos_pos zero_less_power)
  define al where "al = sqrt s"
  have alpos: "0 < al"
    using spos by (simp add: al_def)
  have al2: "al * al = s"
    using spos by (simp add: al_def)
  \<comment> \<open>the root\<close>
  have "1 / 2 ^ 1022 \<le> al"
  proof -
    have "(1 / 2 ^ 1022)\<^sup>2 \<le> s"
    proof -
      have "((1::real) / 2 ^ 1022)\<^sup>2 \<le> 1 / 2 ^ 1021"
        by (simp add: power_divide)
      then show ?thesis
        using lo by linarith
    qed
    then show ?thesis
      unfolding al_def by (rule real_le_rsqrt)
  qed
  moreover have "al \<le> 2 ^ 1023"
  proof -
    have "s \<le> (2 ^ 1023)\<^sup>2"
    proof -
      have "(2::real) ^ 1022 \<le> (2 ^ 1023)\<^sup>2"
        by simp
      then show ?thesis
        using hi by linarith
    qed
    then show ?thesis
      unfolding al_def by (intro real_le_lsqrt) simp_all
  qed
  ultimately obtain r where r: "fl al = Num r" "al * (1 - u) \<le> r" "r \<le> al * (1 + u)"
    using fl_in_range[of al] unfolding u_def by blast
  have rpos: "0 < r"
    using r(2) alpos u by (smt (verit) mult_pos_pos)
  have sq: "js_sqrt (Num s) = Num r"
    using spos r(1) by (simp add: al_def)
  \<comment> \<open>the product of the roots\<close>
  have rr_lo: "s * ((1 - u) * (1 - u)) \<le> r * r"
  proof -
    have "0 \<le> al * (1 - u)"
      using alpos u by simp
    then have "(al * (1 - u)) * (al * (1 - u)) \<le> r * r"
      using r(2) rpos by (intro mult_mono) simp_all
    then show ?thesis
      by (simp add: al2[symmetric] mult_ac)
  qed
  have rr_hi: "r * r \<le> s * ((1 + u) * (1 + u))"
  proof -
    have "r * r \<le> (al * (1 + u)) * (al * (1 + u))"
      using r(3) rpos alpos u by (intro mult_mono) simp_all
    then show ?thesis
      by (simp add: al2[symmetric] mult_ac)
  qed
  have c1: "(1::real) / 2 \<le> (1 - u) * (1 - u)" "(1 + u) * (1 + u) \<le> 2"
    by (simp_all add: u_def)
  have "1 / 2 ^ 1022 \<le> r * r"
  proof -
    have "1 / 2 ^ 1021 * (1 / 2) \<le> s * ((1 - u) * (1 - u))"
      using lo c1(1) by (intro mult_mono) simp_all
    then show ?thesis
      using rr_lo by simp
  qed
  moreover have "r * r \<le> 2 ^ 1023"
  proof -
    have "s * ((1 + u) * (1 + u)) \<le> 2 ^ 1022 * 2"
      using hi c1(2) spos by (intro mult_mono) simp_all
    then show ?thesis
      using rr_hi by simp
  qed
  ultimately obtain p where p: "fl (r * r) = Num p" "r * r * (1 - u) \<le> p"
      "p \<le> r * r * (1 + u)"
    using fl_in_range[of "r * r"] unfolding u_def by blast
  define A where "A = (1 - u) * (1 - u) * (1 - u)"
  define B where "B = (1 + u) * (1 + u) * (1 + u)"
  have Apos: "0 < A" and Bpos: "0 < B"
    by (simp_all add: A_def B_def u_def)
  have p_lo: "s * A \<le> p"
  proof -
    have "s * ((1 - u) * (1 - u)) * (1 - u) \<le> r * r * (1 - u)"
      using rr_lo u by (intro mult_right_mono) simp_all
    then show ?thesis
      using p(2) by (simp add: A_def mult_ac)
  qed
  have p_hi: "p \<le> s * B"
  proof -
    have "r * r * (1 + u) \<le> s * ((1 + u) * (1 + u)) * (1 + u)"
      using rr_hi u by (intro mult_right_mono) simp_all
    then show ?thesis
      using p(3) by (simp add: B_def mult_ac)
  qed
  have ppos: "0 < p"
    using p_lo spos Apos by (smt (verit) mult_pos_pos)
  have prod: "js_mul (js_sqrt (Num s)) (js_sqrt (Num s)) = Num p"
    by (simp only: sq js_mul.simps p(1))
  \<comment> \<open>the quotient\<close>
  have q_lo: "1 / B \<le> s / p"
  proof -
    have "0 < s * B * p"
      using ppos spos Bpos by simp
    then have "s / (s * B) \<le> s / p"
      using p_hi spos by (intro divide_left_mono) simp_all
    then show ?thesis
      using spos by simp
  qed
  have q_hi: "s / p \<le> 1 / A"
  proof -
    have "0 < p * (s * A)"
      using ppos spos Apos by simp
    then have "s / p \<le> s / (s * A)"
      using p_lo spos by (intro divide_left_mono) simp_all
    then show ?thesis
      using spos by simp
  qed
  have c2: "(1::real) / 2 \<le> 1 / B" "1 / A \<le> 2"
    by (simp_all add: A_def B_def u_def)
  have "1 / 2 ^ 1022 \<le> s / p"
  proof -
    have "(1::real) / 2 ^ 1022 \<le> 1 / 2"
      by simp
    then show ?thesis
      using q_lo c2(1) by linarith
  qed
  moreover have "s / p \<le> 2 ^ 1023"
  proof -
    have "(2::real) \<le> 2 ^ 1023"
      by simp
    then show ?thesis
      using q_hi c2(2) by linarith
  qed
  ultimately obtain t where t: "fl (s / p) = Num t" "s / p * (1 - u) \<le> t"
      "t \<le> s / p * (1 + u)"
    using fl_in_range[of "s / p"] unfolding u_def by blast
  have "js_div (Num s) (Num p) = Num t"
    using ppos t(1) by simp
  then have res: "js_div (Num s) (js_mul (js_sqrt (Num s)) (js_sqrt (Num s))) = Num t"
    by (simp only: prod)
  have "1 / B * (1 - u) \<le> s / p * (1 - u)"
    using q_lo u by (intro mult_right_mono) simp_all
  then have t_lo: "1 / B * (1 - u) \<le> t"
    using t(2) by linarith
  have "s / p * (1 + u) \<le> 1 / A * (1 + u)"
    using q_hi u by (intro mult_right_mono) simp_all
  then have t_hi: "t \<le> 1 / A * (1 + u)"
    using t(3) by linarith
  have c3: "1 - 1 / 2 ^ 50 \<le> 1 / B * (1 - u)" "1 / A * (1 + u) \<le> 1 + 1 / 2 ^ 50"
    by (simp_all add: A_def B_def u_def)
  have "\<bar>t - 1\<bar> \<le> 1 / 2 ^ 50"
    using t_lo t_hi c3 by (simp only: abs_le_iff) linarith
  then show ?thesis
    using res by blast
qed

section \<open>The result of a search, by outcome of the fetch\<close>

lemmas corpus_defs = rowA_def rowB_def rowC_def rowShort_def rowLong_def row_def query10_def
  store_of_def

lemmas search_eval = searchSimilarChunks_def fetch_allChunks_def queryRef_def to_chunk_def
  rank_chunks_def js_sort_def js_slice0_def score_compare_def js_sub_def

lemma search_result_cases:
  "(fetch_allChunks db f = Inl StorageUnavailable \<and>
    snd (searchSimilarChunks srt db q limit_arg f) = []) \<or>
   (\<exists>cs. fetch_allChunks db f = Inr cs \<and>
      snd (searchSimilarChunks srt db q limit_arg f) =
        rank_chunks srt q (case limit_arg of None \<Rightarrow> 3 | Some l \<Rightarrow> l) cs)"
  by (cases "reachable db") (simp_all add: searchSimilarChunks_def fetch_allChunks_def Let_def)

lemma search_result_Inr:
  "fetch_allChunks db f = Inr cs \<Longrightarrow>
   snd (searchSimilarChunks srt db q limit_arg f) =
     rank_chunks srt q (case limit_arg of None \<Rightarrow> 3 | Some l \<Rightarrow> l) cs"
  by (simp add: searchSimilarChunks_def Let_def)

lemma search_result_Inl:
  "fetch_allChunks db f = Inl e \<Longrightarrow>
   searchSimilarChunks srt db q limit_arg f =
     ([Console_log AttemptingVectorSearch, Console_log FallingBackToClientSide,
       (case f of
          Some name \<Rightarrow> if truthy f then Console_log (FilteringByFilename name)
                       else Console_warn NoFilenameSearchingGlobal
        | None \<Rightarrow> Console_warn NoFilenameSearchingGlobal),
       Console_error (VectorSearchFailed e)], [])"
  by (simp add: searchSimilarChunks_def Let_def)

lemma map_fst_js_slice0: "map fst (js_slice0 k xs) = js_slice0 k (map fst xs)"
  by (simp add: js_slice0_def Let_def take_map)

section \<open>Ingestion of a new document\<close>

lemma ingest_new:
  assumes "reachable db" "filter (\<lambda>d. hash d = hash doc) (documents db) = []"
  shows "ingest db now doc chunks =
     (db\<lparr>documents := documents db @ [doc\<lparr>created_at := Some now\<rparr>],
         document_chunks := document_chunks db @
            map2 (new_row now) [next_id db ..< next_id db + length chunks] chunks,
         next_id := next_id db + length chunks\<rparr>, Inr Ingested)"
  using assms
  by (simp add: ingest_def getDocumentByHash_def saveDocumentMetadata_def saveChunks_def)

text \<open>
  The spec's scenario "ingesting the same file bytes twice": the second run finds the record
  of the first and leaves the store as the first run left it, with one record for the
  hash and the rows of one chunk set.
\<close>

lemma ingest_twice:
  assumes "reachable db" "filter (\<lambda>d. hash d = hash doc) (documents db) = []"
      and "hash doc' = hash doc"
  shows "fst (ingest (fst (ingest db now doc chunks)) now' doc' chunks') =
           fst (ingest db now doc chunks) \<and>
         length (filter (\<lambda>d. hash d = hash doc)
           (documents (fst (ingest (fst (ingest db now doc chunks)) now' doc' chunks')))) = 1 \<and>
         document_chunks (fst (ingest (fst (ingest db now doc chunks)) now' doc' chunks')) =
           document_chunks db @
           map2 (new_row now) [next_id db ..< next_id db + length chunks] chunks"
proof -
  let ?db2 = "db\<lparr>documents := documents db @ [doc\<lparr>created_at := Some now\<rparr>],
         document_chunks := document_chunks db @
            map2 (new_row now) [next_id db ..< next_id db + length chunks] chunks,
         next_id := next_id db + length chunks\<rparr>"
  have one: "ingest db now doc chunks = (?db2, Inr Ingested)"
    by (rule ingest_new[OF assms(1,2)])
  have "getDocumentByHash ?db2 (hash doc') = Inr (Some (doc\<lparr>created_at := Some now\<rparr>))"
    using assms by (simp add: getDocumentByHash_def)
  then have two: "ingest ?db2 now' doc' chunks' =
      (?db2, Inr (AlreadyIngested (doc\<lparr>created_at := Some now\<rparr>)))"
    by (simp add: ingest_def)
  show ?thesis
    using assms(2) by (simp add: one two)
qed

section \<open>The claims\<close>

text \<open>
  In the statements below \<open>sort_impl\<close> is the engine's \<^verbatim>\<open>Array.prototype.sort\<close>. Where a
  statement needs something of it, it assumes \<open>ecma_sort sort_impl\<close>, and it then holds
  for every engine that conforms to ECMA-262. The concrete runs use \<open>js_sort\<close>; where
  a score in a run is NaN, the run states only what every such engine gives.
\<close>

subsection \<open>C1: a search scoped to a filename returns chunks of that filename only\<close>

text \<open>
  C1, as the code has it: for every store, query embedding, limit and non-empty filename
  \<open>f\<close>, every chunk that \<^verbatim>\<open>searchSimilarChunks\<close> returns has
  \<^verbatim>\<open>metadata.filename\<close> equal to \<open>f\<close>, whatever the scores are. The filename has
  to be non-empty because the filter sits behind \<^verbatim>\<open>if (filename)\<close>.
\<close>

theorem search_filename_scope:
  assumes "ecma_sort sort_impl" and "f \<noteq> []"
  shows "\<forall>c\<in>set (snd (searchSimilarChunks sort_impl db q limit_arg (Some f))).
           filename (metadata c) = f"
proof (cases "fetch_allChunks db (Some f)")
  case (Inl e)
  then show ?thesis
    by (simp add: search_result_Inl)
next
  case (Inr cs)
  then have cs: "cs = map to_chunk
      (filter (\<lambda>d. filename (doc_metadata d) = f) (document_chunks db))"
    using assms(2) by (auto simp: fetch_allChunks_def queryRef_def split: if_splits)
  have "set (snd (searchSimilarChunks sort_impl db q limit_arg (Some f))) \<subseteq> set cs"
    using Inr by (simp add: search_result_Inr set_rank_chunks_subset[OF assms(1)])
  then show ?thesis
    using cs by (auto simp: to_chunk_def)
qed

text \<open>
  The spec's scenario: of A and C in \<^verbatim>\<open>x.pdf\<close> and the better scoring B in
  \<^verbatim>\<open>y.pdf\<close>, a search in \<^verbatim>\<open>x.pdf\<close> with limit 2 returns A and C.
\<close>

theorem search_filename_scope_witness:
  "''x.pdf'' \<noteq> [] \<and>
   snd (searchSimilarChunks js_sort (store_of [rowA, rowB, rowC]) query10 (Some 2)
       (Some ''x.pdf'')) =
     [to_chunk rowA, to_chunk rowC] \<and>
   list_all (\<lambda>c. filename (metadata c) = ''x.pdf'')
     (snd (searchSimilarChunks js_sort (store_of [rowA, rowB, rowC]) query10 (Some 2)
       (Some ''x.pdf'')))"
  using search_filename_scope[OF ecma_sort_js_sort, of "''x.pdf''" "store_of [rowA, rowB, rowC]"
      query10 "Some 2"]
  by (simp add: corpus_defs search_eval cosine_eval)

text \<open>
  With the empty string as the filename the same call searches the whole collection and
  returns chunks of \<^verbatim>\<open>y.pdf\<close> and \<^verbatim>\<open>x.pdf\<close>, none of which has the filename asked
  for. The three scores are 0, 1 and -1, so every conforming sort gives this order.
\<close>

theorem search_filename_scope_counterexample:
  "map (\<lambda>c. filename (metadata c))
     (snd (searchSimilarChunks js_sort (store_of [rowA, rowB, rowC]) query10 (Some 2)
        (Some ''''))) =
   [''y.pdf'', ''x.pdf'']"
  by (simp add: corpus_defs search_eval cosine_eval)

subsection \<open>C2: re-ingesting known content adds no record and no chunks\<close>

text \<open>
  C2, against the ingestion sequence modelled from the spec: when
  \<^verbatim>\<open>getDocumentByHash\<close> returns a record for the hash of the document, the sequence
  leaves the store as it was, so it adds no second record for the hash and no chunk
  rows. And when a document whose hash is not yet registered is ingested and then content
  of the same hash is ingested again, the second run changes nothing: the registry holds
  exactly one record for the hash and the chunk collection holds the rows of the first
  run only.
\<close>

theorem ingest_deduplicates:
  "(getDocumentByHash db (hash doc) = Inr (Some existing) \<longrightarrow>
      ingest db now doc chunks = (db, Inr (AlreadyIngested existing)) \<and>
      length (filter (\<lambda>d. hash d = hash doc) (documents (fst (ingest db now doc chunks)))) =
        length (filter (\<lambda>d. hash d = hash doc) (documents db)) \<and>
      document_chunks (fst (ingest db now doc chunks)) = document_chunks db) \<and>
   (reachable db \<and> filter (\<lambda>d. hash d = hash doc) (documents db) = [] \<and>
    hash doc' = hash doc \<longrightarrow>
      fst (ingest (fst (ingest db now doc chunks)) now' doc' chunks') =
        fst (ingest db now doc chunks) \<and>
      length (filter (\<lambda>d. hash d = hash doc)
        (documents (fst (ingest (fst (ingest db now doc chunks)) now' doc' chunks')))) = 1 \<and>
      mset (document_chunks (fst (ingest (fst (ingest db now doc chunks)) now' doc' chunks'))) =
        mset (document_chunks db) +
        mset (map2 (new_row now) [next_id db ..< next_id db + length chunks] chunks))"
proof (intro conjI impI)
  assume found: "getDocumentByHash db (hash doc) = Inr (Some existing)"
  then show same: "ingest db now doc chunks = (db, Inr (AlreadyIngested existing))"
    by (simp add: ingest_def)
  show "length (filter (\<lambda>d. hash d = hash doc) (documents (fst (ingest db now doc chunks)))) =
        length (filter (\<lambda>d. hash d = hash doc) (documents db))"
    by (simp add: same)
  show "document_chunks (fst (ingest db now doc chunks)) = document_chunks db"
    by (simp add: same)
next
  assume new: "reachable db \<and> filter (\<lambda>d. hash d = hash doc) (documents db) = [] \<and>
    hash doc' = hash doc"
  then have twice: "fst (ingest (fst (ingest db now doc chunks)) now' doc' chunks') =
           fst (ingest db now doc chunks) \<and>
         length (filter (\<lambda>d. hash d = hash doc)
           (documents (fst (ingest (fst (ingest db now doc chunks)) now' doc' chunks')))) = 1 \<and>
         document_chunks (fst (ingest (fst (ingest db now doc chunks)) now' doc' chunks')) =
           document_chunks db @
           map2 (new_row now) [next_id db ..< next_id db + length chunks] chunks"
    using ingest_twice[of db doc doc' now chunks now' chunks'] by blast
  show "fst (ingest (fst (ingest db now doc chunks)) now' doc' chunks') =
        fst (ingest db now doc chunks)"
    using twice by blast
  show "length (filter (\<lambda>d. hash d = hash doc)
        (documents (fst (ingest (fst (ingest db now doc chunks)) now' doc' chunks')))) = 1"
    using twice by blast
  have "document_chunks (fst (ingest (fst (ingest db now doc chunks)) now' doc' chunks')) =
        document_chunks db @
        map2 (new_row now) [next_id db ..< next_id db + length chunks] chunks"
    using twice by blast
  then show "mset (document_chunks
          (fst (ingest (fst (ingest db now doc chunks)) now' doc' chunks'))) =
        mset (document_chunks db) +
        mset (map2 (new_row now) [next_id db ..< next_id db + length chunks] chunks)"
    by (simp only: mset_append)
qed

text \<open>
  A store that has the record \<open>doc_x\<close> and the two chunks of \<^verbatim>\<open>x.pdf\<close>: ingesting
  \<open>doc_x\<close> again returns "already ingested" and the same store. And on a store without
  the record, two runs leave one record.
\<close>

theorem ingest_deduplicates_witness:
  "getDocumentByHash ((store_of [rowA, rowC])\<lparr>documents := [doc_x]\<rparr>) (hash doc_x) =
     Inr (Some doc_x) \<and>
   ingest ((store_of [rowA, rowC])\<lparr>documents := [doc_x]\<rparr>) 7 doc_x
       [to_chunk rowA, to_chunk rowC] =
     ((store_of [rowA, rowC])\<lparr>documents := [doc_x]\<rparr>, Inr (AlreadyIngested doc_x)) \<and>
   reachable (store_of []) \<and>
   filter (\<lambda>d. hash d = hash doc_x) (documents (store_of [])) = [] \<and>
   documents (fst (ingest (fst (ingest (store_of []) 7 doc_x [to_chunk rowA, to_chunk rowC]))
       8 doc_x [to_chunk rowA, to_chunk rowC])) =
     [doc_x\<lparr>created_at := Some 7\<rparr>] \<and>
   length (document_chunks (fst (ingest (fst (ingest (store_of []) 7 doc_x
       [to_chunk rowA, to_chunk rowC])) 8 doc_x [to_chunk rowA, to_chunk rowC]))) = 2"
  using ingest_deduplicates[of "(store_of [rowA, rowC])\<lparr>documents := [doc_x]\<rparr>" doc_x doc_x 7
      "[to_chunk rowA, to_chunk rowC]" doc_x 8 "[to_chunk rowA, to_chunk rowC]"]
    ingest_deduplicates[of "store_of []" doc_x doc_x 7
      "[to_chunk rowA, to_chunk rowC]" doc_x 8 "[to_chunk rowA, to_chunk rowC]"]
  by (simp add: getDocumentByHash_def store_of_def doc_x_def ingest_def
      saveDocumentMetadata_def saveChunks_def)

subsection \<open>C3: a zero norm gives the score zero\<close>

text \<open>
  C3, as the code has it: if \<^verbatim>\<open>vecA\<close> is all-zero or empty, or if \<^verbatim>\<open>vecB\<close> is
  all-zero and at least as long as \<^verbatim>\<open>vecA\<close>, then \<^verbatim>\<open>cosineSimilarity\<close> returns
  exactly the number 0 (no NaN, no exception; the division is not reached).
\<close>

theorem cosineSimilarity_zero_norm:
  "zero_vector a \<or> (zero_vector b \<and> length a \<le> length b) \<Longrightarrow> cosineSimilarity a b = Num 0"
  using cosineSimilarity_normA_zero[of a b] cosineSimilarity_normB_zero[of b a]
  by (auto simp: zero_vector_iff)

theorem cosineSimilarity_zero_norm_witness:
  "zero_vector [Num 0, Num 0] \<and> length [Num 1] \<le> length [Num 0, Num 0 :: jsnum] \<and>
   cosineSimilarity [Num 1] [Num 0, Num 0] = Num 0 \<and>
   cosineSimilarity [Num 0, Num 0] [] = Num 0"
  using cosineSimilarity_zero_norm[of "[Num 0, Num 0]" "[]"]
        cosineSimilarity_zero_norm[of "[Num 1]" "[Num 0, Num 0]"]
  by (simp add: zero_vector_def)

text \<open>
  A \<^verbatim>\<open>vecB\<close> of norm zero that is shorter than a non-zero \<^verbatim>\<open>vecA\<close>: the loop reads
  \<^verbatim>\<open>vecB\<close> past its end, \<^verbatim>\<open>normB\<close> becomes NaN, the guard does not fire and the
  result is NaN. So for the empty \<^verbatim>\<open>vecB\<close>, and so for \<open>[0]\<close> against \<open>[1, 1]\<close>.
\<close>

theorem cosineSimilarity_zero_norm_counterexample:
  "zero_vector [] \<and> cosineSimilarity [Num 1] [] = NaN \<and>
   zero_vector [Num 0] \<and> cosineSimilarity [Num 1, Num 1] [Num 0] = NaN"
  by (simp add: zero_vector_def cosine_eval)

subsection \<open>C4: a failed fetch gives the empty result\<close>

text \<open>
  C4, as the code has it: whenever the candidate fetch is rejected with a storage error,
  \<^verbatim>\<open>searchSimilarChunks\<close> returns the empty array, raises nothing, and its last
  console entry is the \<^verbatim>\<open>console.error\<close> of the \<^verbatim>\<open>catch\<close> branch, carrying the
  error.
\<close>

theorem search_storage_failure:
  assumes "fetch_allChunks db f = Inl e"
  shows "snd (searchSimilarChunks sort_impl db q limit_arg f) = [] \<and>
         last (fst (searchSimilarChunks sort_impl db q limit_arg f)) =
           Console_error (VectorSearchFailed e)"
  using assms by (simp add: search_result_Inl)

theorem search_storage_failure_witness:
  "fetch_allChunks ((store_of [rowA, rowB, rowC])\<lparr>reachable := False\<rparr>) (Some ''x.pdf'') =
     Inl StorageUnavailable \<and>
   searchSimilarChunks js_sort ((store_of [rowA, rowB, rowC])\<lparr>reachable := False\<rparr>) query10
       (Some 2) (Some ''x.pdf'') =
     ([Console_log AttemptingVectorSearch, Console_log FallingBackToClientSide,
       Console_log (FilteringByFilename ''x.pdf''),
       Console_error (VectorSearchFailed StorageUnavailable)], [])"
  using search_storage_failure[of "(store_of [rowA, rowB, rowC])\<lparr>reachable := False\<rparr>"
      "Some ''x.pdf''" StorageUnavailable js_sort query10 "Some 2"]
  by (simp add: corpus_defs search_eval)

text \<open>
  A candidate whose embedding has one dimension against a query of two: the fetch
  succeeds, nothing compares the lengths, and the result is not empty.
\<close>

theorem search_storage_failure_counterexample:
  "length (embedding (to_chunk rowShort)) \<noteq> length query10 \<and>
   fetch_allChunks (store_of [rowShort, rowA]) (Some ''x.pdf'') =
     Inr [to_chunk rowShort, to_chunk rowA] \<and>
   snd (searchSimilarChunks js_sort (store_of [rowShort, rowA]) query10 (Some 3)
     (Some ''x.pdf'')) \<noteq> []"
  by (simp add: corpus_defs search_eval cosine_eval)

subsection \<open>C5: embeddings of length zero or of another dimensionality\<close>

text \<open>
  C5, as the code has it: for every search whose fetch succeeds, whatever the lengths of
  the query embedding and of the candidates' embeddings, the search is not aborted and no
  candidate is skipped. The result is \<^verbatim>\<open>slice(0, limit)\<close>, the first \<open>limit\<close>
  entries, of the array that the engine's sort makes of all candidates paired with their
  scores; that array is a rearrangement of all candidates and is in descending order of
  score when no score is NaN; a limit of at least the number of candidates returns them
  all. The score of a pair is not set to zero for its lengths: a candidate at least as
  long as the query is scored on its first entries, as many as the query has; a candidate
  shorter than the query, the empty one included, is scored NaN, or 0 when the query's
  own sum of squares is zero; a query of length zero scores 0 against every candidate.
\<close>

theorem search_malformed_pairs:
  assumes "ecma_sort sort_impl" and "fetch_allChunks db f = Inr allChunks"
  shows "snd (searchSimilarChunks sort_impl db q limit_arg f) =
           js_slice0 (case limit_arg of None \<Rightarrow> 3 | Some l \<Rightarrow> l)
             (map fst (sort_impl score_compare (map (\<lambda>c. (c, score q c)) allChunks))) \<and>
         mset (map fst (sort_impl score_compare (map (\<lambda>c. (c, score q c)) allChunks))) =
           mset allChunks \<and>
         ((\<forall>c\<in>set allChunks. score q c \<noteq> NaN) \<longrightarrow>
            sorted_wrt (\<lambda>a b. js_ge (score q a) (score q b))
              (map fst (sort_impl score_compare (map (\<lambda>c. (c, score q c)) allChunks)))) \<and>
         (int (length allChunks) \<le> (case limit_arg of None \<Rightarrow> 3 | Some l \<Rightarrow> l) \<longrightarrow>
            mset (snd (searchSimilarChunks sort_impl db q limit_arg f)) = mset allChunks) \<and>
         (\<forall>c\<in>set allChunks.
            (length q \<le> length (embedding c) \<longrightarrow>
               score q c = cosineSimilarity q (take (length q) (embedding c))) \<and>
            (length (embedding c) < length q \<longrightarrow>
               score q c = (if normA_of q = Num 0 then Num 0 else NaN)) \<and>
            (q = [] \<longrightarrow> score q c = Num 0))"
proof -
  let ?k = "case limit_arg of None \<Rightarrow> 3 | Some l \<Rightarrow> l"
  let ?ranked = "sort_impl score_compare (map (\<lambda>c. (c, score q c)) allChunks)"
  have sc: "map (\<lambda>c. (c, score q c)) allChunks = scoredChunks q allChunks"
    by (simp add: scoredChunks_def score_def)
  have res: "snd (searchSimilarChunks sort_impl db q limit_arg f) =
      rank_chunks sort_impl q ?k allChunks"
    using assms(2) by (simp add: search_result_Inr)
  have first: "rank_chunks sort_impl q ?k allChunks = js_slice0 ?k (map fst ?ranked)"
    by (simp only: rank_chunks_scoredChunks map_fst_js_slice0 sc)
  have perm: "mset (map fst ?ranked) = mset allChunks"
    by (simp only: sc mset_sorted_scored[OF assms(1)])
  have sorted: "sorted_wrt (\<lambda>a b. js_ge (score q a) (score q b)) (map fst ?ranked)"
    if ok: "\<forall>c\<in>set allChunks. score q c \<noteq> NaN"
  proof -
    obtain omitted where
      "sorted_wrt (\<lambda>a b. js_ge (score q a) (score q b))
         (rank_chunks sort_impl q (int (length allChunks)) allChunks @ omitted)"
      using rank_chunks_descending[OF assms(1) ok] by blast
    then have "sorted_wrt (\<lambda>a b. js_ge (score q a) (score q b))
         (rank_chunks sort_impl q (int (length allChunks)) allChunks)"
      by (simp add: sorted_wrt_append)
    moreover have "rank_chunks sort_impl q (int (length allChunks)) allChunks = map fst ?ranked"
      by (simp add: rank_chunks_scoredChunks js_slice0_all sc
          ecma_sort_length[OF assms(1)] scoredChunks_def)
    ultimately show ?thesis
      by simp
  qed
  have all: "mset (rank_chunks sort_impl q ?k allChunks) = mset allChunks"
    if "int (length allChunks) \<le> ?k"
    using that by (rule rank_chunks_all[OF assms(1)])
  have scores: "(length q \<le> length (embedding c) \<longrightarrow>
               score q c = cosineSimilarity q (take (length q) (embedding c))) \<and>
            (length (embedding c) < length q \<longrightarrow>
               score q c = (if normA_of q = Num 0 then Num 0 else NaN)) \<and>
            (q = [] \<longrightarrow> score q c = Num 0)" for c
    using cosineSimilarity_prefix[of q "embedding c"] cosineSimilarity_short[of "embedding c" q]
    by (auto simp: score_def cosineSimilarity_empty_query)
  show ?thesis
    using first perm sorted all scores by (simp only: res) blast
qed

text \<open>
  Three candidates of one, two and three dimensions against a query of two: all three come
  back. The short one scores NaN and the long one is scored on its first two entries.
\<close>

theorem search_malformed_pairs_witness:
  "fetch_allChunks (store_of [rowShort, rowA, rowLong]) (Some ''x.pdf'') =
     Inr [to_chunk rowShort, to_chunk rowA, to_chunk rowLong] \<and>
   mset (snd (searchSimilarChunks js_sort (store_of [rowShort, rowA, rowLong]) query10 (Some 3)
       (Some ''x.pdf''))) =
     mset [to_chunk rowShort, to_chunk rowA, to_chunk rowLong] \<and>
   score query10 (to_chunk rowShort) = NaN \<and>
   score query10 (to_chunk rowLong) = cosineSimilarity query10 [Num 1, Num 0] \<and>
   snd (searchSimilarChunks js_sort (store_of [rowA, rowLong, rowC]) query10 (Some 2)
       (Some ''x.pdf'')) = [to_chunk rowLong, to_chunk rowA]"
  using search_malformed_pairs[OF ecma_sort_js_sort,
      of "store_of [rowShort, rowA, rowLong]" "Some ''x.pdf''"
     "[to_chunk rowShort, to_chunk rowA, to_chunk rowLong]" query10 "Some 3"]
    search_malformed_pairs[OF ecma_sort_js_sort,
      of "store_of [rowA, rowLong, rowC]" "Some ''x.pdf''"
     "[to_chunk rowA, to_chunk rowLong, to_chunk rowC]" query10 "Some 2"]
  by (simp add: corpus_defs search_eval cosine_eval score_def)

text \<open>
  The pair is neither scored zero nor skipped. \<open>rowLong\<close> has three dimensions against
  the query's two; it scores 1, over the first two dimensions, and with limit 1 it is the
  chunk returned, ahead of the well-formed \<open>rowA\<close>. A candidate with the empty embedding
  scores NaN against the same query.
\<close>

theorem search_malformed_pairs_counterexample:
  "length (embedding (to_chunk rowLong)) \<noteq> length query10 \<and>
   score query10 (to_chunk rowLong) = Num 1 \<and>
   snd (searchSimilarChunks js_sort (store_of [rowA, rowLong]) query10 (Some 1)
     (Some ''x.pdf'')) = [to_chunk rowLong] \<and>
   embedding (to_chunk (row 5 ''x.pdf'' [])) = [] \<and>
   score query10 (to_chunk (row 5 ''x.pdf'' [])) = NaN"
  by (simp add: corpus_defs search_eval cosine_eval score_def)

subsection \<open>C6: at most topK results, and all candidates when there are few\<close>

text \<open>
  C6: for every query embedding, candidate set and limit \<open>k\<close>, a count and so not
  negative, \<^verbatim>\<open>searchSimilarChunks\<close> returns at most \<open>k\<close> chunks, all of them
  candidates; when there are at most \<open>k\<close> candidates it returns every one of them, with
  no padding, and otherwise exactly \<open>k\<close>. A failed fetch gives the empty array.
\<close>

theorem search_at_most_limit:
  assumes "ecma_sort sort_impl" and "0 \<le> limit"
  shows "int (length (snd (searchSimilarChunks sort_impl db q (Some limit) f))) \<le> limit \<and>
         (case fetch_allChunks db f of
            Inl e \<Rightarrow> snd (searchSimilarChunks sort_impl db q (Some limit) f) = []
          | Inr cs \<Rightarrow>
              mset (snd (searchSimilarChunks sort_impl db q (Some limit) f)) \<subseteq># mset cs \<and>
              (if int (length cs) \<le> limit
               then mset (snd (searchSimilarChunks sort_impl db q (Some limit) f)) = mset cs
               else int (length (snd (searchSimilarChunks sort_impl db q (Some limit) f))) =
                      limit))"
proof (cases "fetch_allChunks db f")
  case (Inl e)
  then show ?thesis
    using assms(2) by (simp add: search_result_Inl)
next
  case (Inr cs)
  have res: "snd (searchSimilarChunks sort_impl db q (Some limit) f) =
      rank_chunks sort_impl q limit cs"
    using Inr by (simp add: search_result_Inr)
  have "int (length (rank_chunks sort_impl q limit cs)) \<le> limit"
    using assms(2) by (rule length_rank_chunks_le)
  moreover have "mset (rank_chunks sort_impl q limit cs) \<subseteq># mset cs"
    by (rule mset_rank_chunks_subset[OF assms(1)])
  moreover have "int (length cs) \<le> limit \<Longrightarrow>
      mset (rank_chunks sort_impl q limit cs) = mset cs"
    by (rule rank_chunks_all[OF assms(1)])
  moreover have "\<not> int (length cs) \<le> limit \<Longrightarrow>
      int (length (rank_chunks sort_impl q limit cs)) = limit"
    using assms(2) by (simp add: length_rank_chunks[OF assms(1)] js_slice0_def Let_def)
  ultimately show ?thesis
    using Inr res by simp
qed

text \<open>
  The spec's scenario: limit 5 on a document with two chunks returns those two.
\<close>

theorem search_at_most_limit_witness:
  "(0::int) \<le> 5 \<and>
   snd (searchSimilarChunks js_sort (store_of [rowA, rowB, rowC]) query10 (Some 5)
       (Some ''x.pdf'')) =
     [to_chunk rowA, to_chunk rowC] \<and>
   int (length (snd (searchSimilarChunks js_sort (store_of [rowA, rowB, rowC]) query10 (Some 5)
     (Some ''x.pdf'')))) \<le> 5"
  using search_at_most_limit[OF ecma_sort_js_sort, of 5 "store_of [rowA, rowB, rowC]" query10
      "Some ''x.pdf''"]
  by (simp add: corpus_defs search_eval cosine_eval)

subsection \<open>C7: the result is in descending order of score\<close>




subsection \<open>C8: without a filename the whole collection is scanned, with a warning\<close>

text \<open>
  C8: a call of \<^verbatim>\<open>searchSimilarChunks\<close> without a filename prints the warning of the
  global search through \<^verbatim>\<open>console.warn\<close>, and its fetch, when the store answers,
  returns one candidate for every row of the chunk collection, of all documents and in
  the order of the collection, unfiltered: the candidate carries the id, the text, the
  embedding and the metadata of its row. The count printed is the size of the collection,
  and with a limit of that size the result is a rearrangement of these candidates.
\<close>

theorem search_global_scan:
  "Console_warn NoFilenameSearchingGlobal
     \<in> set (fst (searchSimilarChunks sort_impl db q limit_arg None)) \<and>
   (if reachable db
    then fetch_allChunks db None =
           Inr (map (\<lambda>d. \<lparr>chunk_id = Some (doc_id d), chunk_text = doc_text d,
                           embedding = doc_embedding d, metadata = doc_metadata d\<rparr>)
                  (document_chunks db)) \<and>
         Console_log (ChunksRetrieved (length (document_chunks db)))
           \<in> set (fst (searchSimilarChunks sort_impl db q limit_arg None)) \<and>
         (ecma_sort sort_impl \<longrightarrow>
            mset (snd (searchSimilarChunks sort_impl db q
                         (Some (int (length (document_chunks db)))) None)) =
            mset (map (\<lambda>d. \<lparr>chunk_id = Some (doc_id d), chunk_text = doc_text d,
                            embedding = doc_embedding d, metadata = doc_metadata d\<rparr>)
                   (document_chunks db)))
    else fetch_allChunks db None = Inl StorageUnavailable)"
proof (cases "reachable db")
  case True
  let ?all = "map (\<lambda>d. \<lparr>chunk_id = Some (doc_id d), chunk_text = doc_text d,
                        embedding = doc_embedding d, metadata = doc_metadata d\<rparr>)
                (document_chunks db)"
  have f: "fetch_allChunks db None = Inr ?all"
    using True by (simp add: fetch_allChunks_def queryRef_def to_chunk_def)
  have len: "int (length ?all) \<le> int (length (document_chunks db))"
    by simp
  have "mset (snd (searchSimilarChunks sort_impl db q
                     (Some (int (length (document_chunks db)))) None)) = mset ?all"
    if "ecma_sort sort_impl"
    using f rank_chunks_all[OF that len] by (simp only: search_result_Inr option.case)
  moreover have "Console_warn NoFilenameSearchingGlobal
       \<in> set (fst (searchSimilarChunks sort_impl db q limit_arg None))"
    "Console_log (ChunksRetrieved (length (document_chunks db)))
       \<in> set (fst (searchSimilarChunks sort_impl db q limit_arg None))"
    using f by (simp_all add: searchSimilarChunks_def Let_def)
  ultimately show ?thesis
    using True f by (simp only: if_True) blast
next
  case False
  then show ?thesis
    by (simp add: searchSimilarChunks_def fetch_allChunks_def Let_def)
qed

text \<open>The three rows of two documents: all are fetched, scored and returned.\<close>

theorem search_global_scan_witness:
  "reachable (store_of [rowA, rowB, rowC]) \<and>
   fetch_allChunks (store_of [rowA, rowB, rowC]) None =
     Inr [\<lparr>chunk_id = Some 0, chunk_text = ''text'', embedding = [Num 0, Num 1],
           metadata = \<lparr>filename = ''x.pdf'', persona = ''technical'', pageNumber = None\<rparr>\<rparr>,
          \<lparr>chunk_id = Some 1, chunk_text = ''text'', embedding = [Num 1, Num 0],
           metadata = \<lparr>filename = ''y.pdf'', persona = ''technical'', pageNumber = None\<rparr>\<rparr>,
          \<lparr>chunk_id = Some 2, chunk_text = ''text'', embedding = [Num (- 1), Num 0],
           metadata = \<lparr>filename = ''x.pdf'', persona = ''technical'', pageNumber = None\<rparr>\<rparr>] \<and>
   searchSimilarChunks js_sort (store_of [rowA, rowB, rowC]) query10 (Some 3) None =
     ([Console_log AttemptingVectorSearch, Console_log FallingBackToClientSide,
       Console_warn NoFilenameSearchingGlobal, Console_log (ChunksRetrieved 3),
       Console_log (FirstChunkMetadata
         \<lparr>filename = ''x.pdf'', persona = ''technical'', pageNumber = None\<rparr>),
       Console_log (ScoringChunks 3)],
      [\<lparr>chunk_id = Some 1, chunk_text = ''text'', embedding = [Num 1, Num 0],
        metadata = \<lparr>filename = ''y.pdf'', persona = ''technical'', pageNumber = None\<rparr>\<rparr>,
       \<lparr>chunk_id = Some 0, chunk_text = ''text'', embedding = [Num 0, Num 1],
        metadata = \<lparr>filename = ''x.pdf'', persona = ''technical'', pageNumber = None\<rparr>\<rparr>,
       \<lparr>chunk_id = Some 2, chunk_text = ''text'', embedding = [Num (- 1), Num 0],
        metadata = \<lparr>filename = ''x.pdf'', persona = ''technical'', pageNumber = None\<rparr>\<rparr>])"
  using search_global_scan[of js_sort "store_of [rowA, rowB, rowC]" query10 "Some 3"]
  by (simp add: corpus_defs search_eval cosine_eval)

subsection \<open>C9: the similarity of a vector with itself\<close>

text \<open>
  C9, as the code has it: for every embedding \<open>v\<close> of at most \<open>2 ^ 20\<close> entries, each
  zero or a number of magnitude between \<open>2 ^ -500\<close> and \<open>2 ^ 500\<close> and not all zero,
  \<^verbatim>\<open>cosineSimilarity(v, v)\<close> is a number within \<open>2 ^ -50\<close> of 1. More generally this
  holds for every \<open>v\<close> whose sum of squares, as the loop accumulates it in doubles, is a
  number between \<open>2 ^ -1021\<close> and \<open>2 ^ 1022\<close>.
\<close>

theorem cosineSimilarity_self_tolerance:
  "((\<forall>x\<in>set v. moderate_number x) \<and> length v \<le> 2 ^ 20 \<and> \<not> zero_vector v \<longrightarrow>
      (\<exists>t. cosineSimilarity v v = Num t \<and> \<bar>t - 1\<bar> \<le> 1 / 2 ^ 50)) \<and>
   (\<forall>s. normA_of v = Num s \<and> 1 / 2 ^ 1021 \<le> s \<and> s \<le> 2 ^ 1022 \<longrightarrow>
      (\<exists>t. cosineSimilarity v v = Num t \<and> \<bar>t - 1\<bar> \<le> 1 / 2 ^ 50))"
proof -
  have range: "\<exists>t. cosineSimilarity v v = Num t \<and> \<bar>t - 1\<bar> \<le> 1 / 2 ^ 50"
    if s: "normA_of v = Num s" "1 / 2 ^ 1021 \<le> s" "s \<le> 2 ^ 1022" for s
  proof -
    have "0 < s"
      using s(2) by (smt (verit) divide_pos_pos zero_less_power)
    then have "normA_of v \<noteq> Num 0"
      using s(1) by simp
    then have "cosineSimilarity v v =
        js_div (Num s) (js_mul (js_sqrt (Num s)) (js_sqrt (Num s)))"
      by (simp only: cosineSimilarity_self s(1) if_False)
    then show ?thesis
      using self_quotient_bound[OF s(2,3)] by simp
  qed
  have "\<exists>t. cosineSimilarity v v = Num t \<and> \<bar>t - 1\<bar> \<le> 1 / 2 ^ 50"
    if h: "(\<forall>x\<in>set v. moderate_number x) \<and> length v \<le> 2 ^ 20 \<and> \<not> zero_vector v"
  proof -
    obtain s where "normA_of v = Num s" "1 / 2 ^ 1021 \<le> s" "s \<le> 2 ^ 1022"
      using h normA_of_moderate[of v] by blast
    then show ?thesis
      by (rule range)
  qed
  then show ?thesis
    using range by blast
qed

text \<open>
  The vector \<open>[1, 1]\<close>: the sum of squares is 2, and the result is
  \<^verbatim>\<open>0.9999999999999998\<close>, one unit in the last place below 1.
\<close>

theorem cosineSimilarity_self_tolerance_witness:
  "list_all moderate_number [Num 1, Num 1] \<and> length [Num 1, Num 1 :: jsnum] \<le> 2 ^ 20 \<and>
   \<not> zero_vector [Num 1, Num 1] \<and>
   normA_of [Num 1, Num 1] = Num 2 \<and> (1::real) / 2 ^ 1021 \<le> 2 \<and> (2::real) \<le> 2 ^ 1022 \<and>
   cosineSimilarity [Num 1, Num 1] [Num 1, Num 1] = Num (1 - 1 / 2 ^ 52) \<and>
   (\<exists>t. cosineSimilarity [Num 1, Num 1] [Num 1, Num 1] = Num t \<and> \<bar>t - 1\<bar> \<le> 1 / 2 ^ 50)"
proof -
  have m: "list_all moderate_number [Num 1, Num 1]"
    by simp
  have z: "\<not> zero_vector [Num 1, Num 1]"
    by (simp add: zero_vector_def)
  have n: "normA_of [Num 1, Num 1] = Num 2"
    by (simp add: normA_of_def cosine_loop.simps at_index_def fl_int)
  have lo: "(1::real) / 2 ^ 1021 \<le> 2" and hi: "(2::real) \<le> 2 ^ 1022"
    by simp_all
  have "(\<forall>x\<in>set [Num 1, Num 1]. moderate_number x) \<and>
      length [Num 1, Num 1 :: jsnum] \<le> 2 ^ 20 \<and> \<not> zero_vector [Num 1, Num 1]"
    using z by simp
  then have "\<exists>t. cosineSimilarity [Num 1, Num 1] [Num 1, Num 1] = Num t \<and>
      \<bar>t - 1\<bar> \<le> 1 / 2 ^ 50"
    using cosineSimilarity_self_tolerance[of "[Num 1, Num 1]"] by blast
  then show ?thesis
    using m z n lo hi cosineSimilarity_ones by simp
qed

text \<open>
  Two non-zero vectors outside that range. The squares of \<open>2 ^ 600\<close> overflow: the sums
  are \<^verbatim>\<open>Infinity\<close> and the quotient of two infinities is NaN. The square of
  \<open>2 ^ -600\<close> underflows to zero: the guard fires and the result is 0.
\<close>

theorem cosineSimilarity_self_tolerance_counterexample:
  "\<not> zero_vector [Num (2 ^ 600), Num (2 ^ 600)] \<and>
   cosineSimilarity [Num (2 ^ 600), Num (2 ^ 600)] [Num (2 ^ 600), Num (2 ^ 600)] = NaN \<and>
   \<not> zero_vector [Num (1 / 2 ^ 600)] \<and>
   cosineSimilarity [Num (1 / 2 ^ 600)] [Num (1 / 2 ^ 600)] = Num 0"
proof -
  define a :: real where "a = 2 ^ 600"
  define b :: real where "b = 1 / 2 ^ 600"
  have a: "0 < a" "a \<noteq> 0" and b: "0 < b" "b \<noteq> 0"
    by (simp_all add: a_def b_def)
  have "a * a = 2 ^ 1200"
    by (simp only: a_def power_add[symmetric]) simp
  then have "2 ^ 1024 \<le> \<bar>a * a\<bar>"
    by simp
  then have "fl (a * a) = inf_of_sign (a * a)"
    by (rule fl_overflow)
  then have over: "fl (a * a) = PInf"
    using a by (simp add: inf_of_sign_def)
  have "b * b = 1 / 2 ^ 1200"
    by (simp only: b_def times_divide_times_eq power_add[symmetric]) simp
  then have "\<bar>b * b\<bar> \<le> 1 / 2 ^ 1075"
    by simp
  then have under: "fl (b * b) = Num 0"
    by (rule fl_underflow)
  have "cosineSimilarity [Num a, Num a] [Num a, Num a] = NaN"
    by (simp add: cosineSimilarity_def cosine_loop.simps at_index_def over inf_of_sign_def)
  moreover have "cosineSimilarity [Num b] [Num b] = Num 0"
    by (simp add: cosineSimilarity_def cosine_loop.simps at_index_def under)
  moreover have "\<not> zero_vector [Num a, Num a]" "\<not> zero_vector [Num b]"
    using a b by (simp_all add: zero_vector_def)
  ultimately show ?thesis
    unfolding a_def b_def by blast
qed

subsection \<open>C10: the default limit\<close>

text \<open>
  C10: a call of \<^verbatim>\<open>searchSimilarChunks\<close> without a limit argument returns at most 3
  chunks, for every store, query embedding and filename argument.
\<close>

theorem search_default_limit:
  "length (snd (searchSimilarChunks sort_impl db q None f)) \<le> 3"
  using search_result_cases[of db f sort_impl q None]
  by (auto simp: rank_chunks_scoredChunks js_slice0_def)

text \<open>Four candidates, three results.\<close>

theorem search_default_limit_witness:
  "length (snd (searchSimilarChunks js_sort (store_of [rowA, rowB, rowC, rowLong]) query10
     None None)) = 3"
  using search_default_limit[of js_sort "store_of [rowA, rowB, rowC, rowLong]" query10 None]
  by (simp add: corpus_defs search_eval cosine_eval)

end
